theory Spec2Isabelle
  imports Main "HOL-Library.Word"
begin

unbundle bit_operations_syntax

section \<open>The lifecycle queues of \<^verbatim>\<open>packages/runtime/src/lifecycle.ts\<close>\<close>

text \<open>
  The module declares six intrusive doubly linked queues (\<^verbatim>\<open>BoundQueue\<close>,
  \<^verbatim>\<open>UnboundQueue\<close>, \<^verbatim>\<open>AttachedQueue\<close>, \<^verbatim>\<open>DetachedQueue\<close>, \<^verbatim>\<open>MountQueue\<close>,
  \<^verbatim>\<open>UnmountQueue\<close>), one array queue (\<^verbatim>\<open>BatchQueue\<close>) and the \<^verbatim>\<open>Lifecycle\<close> object that
  owns one instance of each. The six intrusive classes are the same text up to the names of
  the link fields they use on a controller (\<^verbatim>\<open>nextBound\<close>/\<^verbatim>\<open>prevBound\<close>, ...,
  \<^verbatim>\<open>nextUnmount\<close>/\<^verbatim>\<open>prevUnmount\<close>) and the callback they invoke, so the model indexes
  them by a phase: \<open>head s (Auto Bound)\<close> is \<^verbatim>\<open>lifecycle.afterBind.head\<close>,
  \<open>nexts s Mount c\<close> is \<^verbatim>\<open>c.nextMount\<close>, and so on.

  A controller (and a batchable) is an object; the model names it by a natural number,
  its identity, and \<^verbatim>\<open>===\<close> on objects is equality of these numbers.
  \<^verbatim>\<open>undefined\<close> in a link field, in \<^verbatim>\<open>head\<close> or in \<^verbatim>\<open>tail\<close> is \<open>None\<close>.
  \<^verbatim>\<open>LifecycleFlags\<close> is a bit set held in a JavaScript number, on which \<^verbatim>\<open>|=\<close>
  works on 32 bits: a 32-bit word. \<^verbatim>\<open>depth\<close> is a JavaScript number that starts at 0 and
  only ever changes by \<^verbatim>\<open>++\<close> and \<^verbatim>\<open>--\<close>: an integer, which can become negative (the
  model leaves out that a number stops counting exactly beyond \<open>2 ^ 53\<close>).
\<close>

type_synonym item = nat
type_synonym flags = "32 word"

datatype auto = Bound | Unbound | Attached | Detached

datatype phase = Auto auto | Mount | Unmount

datatype error = TypeError | Thrown nat

text \<open>
  A call either returns or throws; in both cases it leaves a state behind. \<open>Inr s\<close> is a
  normal return in state \<open>s\<close>, \<open>Inl (e, s)\<close> is the exception \<open>e\<close> thrown in state \<open>s\<close>.
\<close>

type_synonym 'a result = "(error \<times> 'a) + 'a"

record lifecycle =
  depth :: "auto \<Rightarrow> int"
  head :: "phase \<Rightarrow> item option"
  tail :: "phase \<Rightarrow> item option"
  nexts :: "phase \<Rightarrow> item \<Rightarrow> item option"
  prevs :: "phase \<Rightarrow> item \<Rightarrow> item option"
  queue :: "item list"
  batch_depth :: int

text \<open>
  The callbacks are the collaborators' code: \<^verbatim>\<open>afterBind\<close>, \<^verbatim>\<open>afterUnbind\<close>,
  \<^verbatim>\<open>afterAttach\<close>, \<^verbatim>\<open>afterDetach\<close>, \<^verbatim>\<open>mount\<close>, \<^verbatim>\<open>unmount\<close> (the field \<open>hook\<close>, by
  phase) and \<^verbatim>\<open>flushBatch\<close>, and so is the closure given to \<^verbatim>\<open>inline\<close>. Each holds a
  reference to the lifecycle and may call back into any queue while a drain is running, so
  a callback is a script: a sequence of commands, run in order up to the first that throws.
  \<open>Effect f\<close> is code that returns or throws without running a drain: \<open>f\<close> is any
  function of the state, so it covers \<^verbatim>\<open>add\<close>, \<^verbatim>\<open>remove\<close> and \<^verbatim>\<open>begin\<close> on any queue
  and a plain \<^verbatim>\<open>throw\<close>. \<open>Process\<close>, \<open>End\<close>, \<open>BatchProcess\<close> and \<open>BatchEnd\<close> are
  the calls that can run a drain and so invoke callbacks in turn: \<^verbatim>\<open>process(flags)\<close> of a
  phase queue, \<^verbatim>\<open>end(flags)\<close> of an auto queue, and \<^verbatim>\<open>process(flags)\<close> and
  \<^verbatim>\<open>end(flags)\<close> of the batch queue. \<open>Dyn g\<close> is code that reads the state and goes on
  with the script \<open>g\<close> makes of it, so what a callback calls may depend on what it
  finds. The script of a callback may also depend on the flags it is called with. The two
  constants of \<^verbatim>\<open>LifecycleFlags\<close> the module reads are declared in \<^verbatim>\<open>./flags\<close>, outside
  this module, and are parameters here.
\<close>

datatype cmd =
    Effect "lifecycle \<Rightarrow> lifecycle result"
  | Process phase flags
  | End auto "flags option"
  | BatchProcess flags
  | BatchEnd "flags option"
  | Dyn "lifecycle \<Rightarrow> cmd list"

record env =
  LifecycleFlags_none :: flags
  LifecycleFlags_fromBatch :: flags
  hook :: "phase \<Rightarrow> item \<Rightarrow> flags \<Rightarrow> cmd list"
  flushBatch :: "item \<Rightarrow> flags \<Rightarrow> cmd list"

text \<open>
  What a drain did is observed through the list of callback invocations made, oldest
  first; an invocation is written to it when the callback is called. The list is kept beside
  the state, where no callback can touch it.
\<close>

datatype event = Hook phase item flags | Flush item flags

type_synonym run = "event list \<times> lifecycle"

subsection \<open>\<^verbatim>\<open>new Lifecycle()\<close>\<close>

definition Lifecycle_new :: lifecycle where
  "Lifecycle_new =
     \<lparr>depth = (\<lambda>_. 0), head = (\<lambda>_. None), tail = (\<lambda>_. None),
      nexts = (\<lambda>_ _. None), prevs = (\<lambda>_ _. None), queue = [], batch_depth = 0\<rparr>"

subsection \<open>The intrusive queues: \<^verbatim>\<open>add\<close>, \<^verbatim>\<open>remove\<close>, \<^verbatim>\<open>process\<close>\<close>

definition set_next :: "phase \<Rightarrow> item \<Rightarrow> item option \<Rightarrow> lifecycle \<Rightarrow> lifecycle" where
  "set_next p c v s = s\<lparr>nexts := (nexts s)(p := (nexts s p)(c := v))\<rparr>"

definition set_prev :: "phase \<Rightarrow> item \<Rightarrow> item option \<Rightarrow> lifecycle \<Rightarrow> lifecycle" where
  "set_prev p c v s = s\<lparr>prevs := (prevs s)(p := (prevs s p)(c := v))\<rparr>"

definition set_head :: "phase \<Rightarrow> item option \<Rightarrow> lifecycle \<Rightarrow> lifecycle" where
  "set_head p v s = s\<lparr>head := (head s)(p := v)\<rparr>"

definition set_tail :: "phase \<Rightarrow> item option \<Rightarrow> lifecycle \<Rightarrow> lifecycle" where
  "set_tail p v s = s\<lparr>tail := (tail s)(p := v)\<rparr>"

text \<open>
  \<^verbatim>\<open>add\<close>. On a queue whose \<^verbatim>\<open>head\<close> is defined the code assigns through
  \<^verbatim>\<open>this.tail!\<close>; the \<^verbatim>\<open>!\<close> is erased by the compiler, so with \<^verbatim>\<open>tail\<close> undefined the
  assignment throws a \<^verbatim>\<open>TypeError\<close>, after \<^verbatim>\<open>controller.prevX = this.tail\<close> has run.
\<close>

definition add :: "phase \<Rightarrow> item \<Rightarrow> lifecycle \<Rightarrow> lifecycle result" where
  "add p controller s =
     (if head s p = None then
        Inr (set_tail p (Some controller) (set_head p (Some controller) s))
      else
        (let s1 = set_prev p controller (tail s p) s in
         case tail s1 p of
           None \<Rightarrow> Inl (TypeError, s1)
         | Some t \<Rightarrow> Inr (set_tail p (Some controller) (set_next p t (Some controller) s1))))"

text \<open>
  \<^verbatim>\<open>remove\<close>, statement by statement; every read is from the state the statements before
  it left, as the aliasing of the objects requires.
\<close>

definition remove :: "phase \<Rightarrow> item \<Rightarrow> lifecycle \<Rightarrow> lifecycle" where
  "remove p controller s =
     (let s1 = (case prevs s p controller of
                  None \<Rightarrow> s
                | Some q \<Rightarrow> set_next p q (nexts s p controller) s);
          s2 = (case nexts s1 p controller of
                  None \<Rightarrow> s1
                | Some n \<Rightarrow> set_prev p n (prevs s1 p controller) s1);
          s3 = set_prev p controller None s2;
          s4 = set_next p controller None s3;
          s5 = (if tail s4 p = Some controller
                then set_tail p (prevs s4 p controller) s4 else s4);
          s6 = (if head s5 p = Some controller
                then set_head p (nexts s5 p controller) s5 else s5)
      in s6)"

subsection \<open>The auto queues: \<^verbatim>\<open>begin\<close>\<close>

definition begin_auto :: "auto \<Rightarrow> lifecycle \<Rightarrow> lifecycle" where
  "begin_auto a s = s\<lparr>depth := (depth s)(a := depth s a + 1)\<rparr>"

subsection \<open>\<^verbatim>\<open>BatchQueue\<close>: \<^verbatim>\<open>begin\<close>, \<^verbatim>\<open>add\<close>, \<^verbatim>\<open>remove\<close>\<close>

definition batch_begin :: "lifecycle \<Rightarrow> lifecycle" where
  "batch_begin s = s\<lparr>batch_depth := batch_depth s + 1\<rparr>"

definition batch_add :: "item \<Rightarrow> lifecycle \<Rightarrow> lifecycle" where
  "batch_add requestor s = s\<lparr>queue := queue s @ [requestor]\<rparr>"

text \<open>
  \<^verbatim>\<open>indexOf\<close> finds the first occurrence and \<^verbatim>\<open>splice(index, 1)\<close> deletes it;
  \<open>remove1\<close> is both, and the identity when there is none.
\<close>

definition batch_remove :: "item \<Rightarrow> lifecycle \<Rightarrow> lifecycle" where
  "batch_remove requestor s = s\<lparr>queue := remove1 requestor (queue s)\<rparr>"

subsection \<open>The drains: \<^verbatim>\<open>process\<close> and \<^verbatim>\<open>end\<close>, and the callbacks they run\<close>

text \<open>
  A drain calls callbacks and a callback can call a drain, so the loops of the module and
  the running of a script are one recursive function, \<open>run\<close>, with one case for each:
  \<^item> \<open>Walk p flags cur\<close> is the inner \<^verbatim>\<open>do ... while (cur !== void 0)\<close> of a phase queue's
    \<^verbatim>\<open>process\<close>: call the callback of \<^verbatim>\<open>cur\<close>, then read its next link, clear both its
    links and go on. (The counter \<^verbatim>\<open>i\<close> of the mount and unmount queues is written and
    never read.)
  \<^item> \<open>Step (Process p flags)\<close> is \<^verbatim>\<open>process(flags)\<close> of a phase queue, that is its outer
    \<^verbatim>\<open>while (this.head !== void 0)\<close>: take the chain off the queue
    (\<^verbatim>\<open>this.head = this.tail = void 0\<close>), walk it, and look at \<^verbatim>\<open>head\<close> again.
  \<^item> \<open>FlushAll flags batch\<close> is the \<^verbatim>\<open>for\<close> loop of \<^verbatim>\<open>BatchQueue.process\<close> over the copy
    \<^verbatim>\<open>batch\<close>, which no callback can reach, and \<open>Rounds flags\<close> its
    \<^verbatim>\<open>while (this.queue.length > 0)\<close>; \<open>Step (BatchProcess flags)\<close> is
    \<^verbatim>\<open>BatchQueue.process(flags)\<close>, which starts with \<^verbatim>\<open>flags |= LifecycleFlags.fromBatch\<close>.
  \<^item> \<open>Step (End a flags)\<close> is \<^verbatim>\<open>end(flags)\<close> of an auto queue: it takes
    \<^verbatim>\<open>LifecycleFlags.none\<close> for absent flags, decrements the depth and, when that is then
    0, runs the queue's \<^verbatim>\<open>process\<close>, after \<^verbatim>\<open>this.lifecycle.mount.process(flags)\<close> in
    \<^verbatim>\<open>AttachedQueue\<close> and \<^verbatim>\<open>this.lifecycle.unmount.process(flags)\<close> in
    \<^verbatim>\<open>DetachedQueue\<close>. \<open>Step (BatchEnd flags)\<close> is \<^verbatim>\<open>end(flags)\<close> of the batch queue.
  \<^item> \<open>Exec script\<close> runs a script, command by command.
  An invocation is written to the list of invocations when the callback is called, before
  its script runs. No error is caught anywhere: \<open>Inl\<close> ends every loop. A callback can
  relink a chain into a cycle or keep a queue filled, so a loop need not end: \<open>None\<close> is
  a call that never returns.
\<close>

text \<open>
  What \<^verbatim>\<open>end\<close> calls once the depth is 0, in order: \<^verbatim>\<open>this.process(flags)\<close>, and
  before it, in \<^verbatim>\<open>AttachedQueue\<close> and \<^verbatim>\<open>DetachedQueue\<close>,
  \<^verbatim>\<open>this.lifecycle.mount.process(flags)\<close> and \<^verbatim>\<open>this.lifecycle.unmount.process(flags)\<close>.
\<close>

fun settle :: "auto \<Rightarrow> flags \<Rightarrow> cmd list" where
  "settle Attached flags = [Process Mount flags, Process (Auto Attached) flags]"
| "settle Detached flags = [Process Unmount flags, Process (Auto Detached) flags]"
| "settle a flags = [Process (Auto a) flags]"

datatype call =
    Exec "cmd list"
  | Step cmd
  | Walk phase flags item
  | FlushAll flags "item list"
  | Rounds flags

partial_function (option) run ::
  "env \<Rightarrow> call \<Rightarrow> event list \<Rightarrow> lifecycle \<Rightarrow> run result option" where
  "run env k evs s =
     (case k of
        Walk p flags cur \<Rightarrow>
          Option.bind (run env (Exec (hook env p cur flags)) (evs @ [Hook p cur flags]) s)
            (\<lambda>r. case r of
                   Inl x \<Rightarrow> Some (Inl x)
                 | Inr y \<Rightarrow>
                     (case nexts (snd y) p cur of
                        None \<Rightarrow>
                          Some (Inr (fst y, set_prev p cur None (set_next p cur None (snd y))))
                      | Some n \<Rightarrow>
                          run env (Walk p flags n) (fst y)
                            (set_prev p cur None (set_next p cur None (snd y)))))
      | FlushAll flags batch \<Rightarrow>
          (case batch of
             [] \<Rightarrow> Some (Inr (evs, s))
           | b # rest \<Rightarrow>
               Option.bind (run env (Exec (flushBatch env b flags)) (evs @ [Flush b flags]) s)
                 (\<lambda>r. case r of
                        Inl x \<Rightarrow> Some (Inl x)
                      | Inr y \<Rightarrow> run env (FlushAll flags rest) (fst y) (snd y)))
      | Rounds flags \<Rightarrow>
          (if length (queue s) > 0 then
             Option.bind (run env (FlushAll flags (queue s)) evs (s\<lparr>queue := []\<rparr>))
               (\<lambda>r. case r of
                      Inl x \<Rightarrow> Some (Inl x)
                    | Inr y \<Rightarrow> run env (Rounds flags) (fst y) (snd y))
           else Some (Inr (evs, s)))
      | Exec script \<Rightarrow>
          (case script of
             [] \<Rightarrow> Some (Inr (evs, s))
           | c # rest \<Rightarrow>
               Option.bind (run env (Step c) evs s)
                 (\<lambda>r. case r of
                        Inl x \<Rightarrow> Some (Inl x)
                      | Inr y \<Rightarrow> run env (Exec rest) (fst y) (snd y)))
      | Step c \<Rightarrow>
          (case c of
             Effect f \<Rightarrow>
               (case f s of
                  Inl x \<Rightarrow> Some (Inl (fst x, (evs, snd x)))
                | Inr s1 \<Rightarrow> Some (Inr (evs, s1)))
           | Process p flags \<Rightarrow>
               (case head s p of
                  None \<Rightarrow> Some (Inr (evs, s))
                | Some cur \<Rightarrow>
                    Option.bind
                      (run env (Walk p flags cur) evs (set_head p None (set_tail p None s)))
                      (\<lambda>r. case r of
                             Inl x \<Rightarrow> Some (Inl x)
                           | Inr y \<Rightarrow> run env (Step (Process p flags)) (fst y) (snd y)))
           | End a flags \<Rightarrow>
               (if depth s a - 1 = 0 then
                  run env
                    (Exec (settle a (case flags of None \<Rightarrow> LifecycleFlags_none env | Some f \<Rightarrow> f)))
                    evs (s\<lparr>depth := (depth s)(a := depth s a - 1)\<rparr>)
                else Some (Inr (evs, s\<lparr>depth := (depth s)(a := depth s a - 1)\<rparr>)))
           | BatchProcess flags \<Rightarrow>
               run env (Rounds (flags OR LifecycleFlags_fromBatch env)) evs s
           | BatchEnd flags \<Rightarrow>
               (if batch_depth s - 1 = 0 then
                  run env
                    (Step (BatchProcess
                             (case flags of None \<Rightarrow> LifecycleFlags_none env | Some f \<Rightarrow> f)))
                    evs (s\<lparr>batch_depth := batch_depth s - 1\<rparr>)
                else Some (Inr (evs, s\<lparr>batch_depth := batch_depth s - 1\<rparr>)))
           | Dyn g \<Rightarrow> run env (Exec (g s)) evs s))"

declare run.simps [code]

text \<open>
  The cases of \<open>run\<close> under the names they have in the module. \<^verbatim>\<open>inline(fn, flags)\<close> is
  \<^verbatim>\<open>this.begin(); fn(); this.end(flags);\<close> with no \<^verbatim>\<open>try\<close>/\<^verbatim>\<open>finally\<close>: the script
  of \<^verbatim>\<open>fn\<close> between a \<^verbatim>\<open>begin\<close> and an \<^verbatim>\<open>end\<close>.
\<close>

definition exec :: "env \<Rightarrow> cmd list \<Rightarrow> event list \<Rightarrow> lifecycle \<Rightarrow> run result option" where
  "exec env script evs s = run env (Exec script) evs s"

definition step :: "env \<Rightarrow> cmd \<Rightarrow> event list \<Rightarrow> lifecycle \<Rightarrow> run result option" where
  "step env c evs s = run env (Step c) evs s"

definition walk ::
  "env \<Rightarrow> phase \<Rightarrow> flags \<Rightarrow> item \<Rightarrow> event list \<Rightarrow> lifecycle \<Rightarrow> run result option" where
  "walk env p flags cur evs s = run env (Walk p flags cur) evs s"

definition process ::
  "env \<Rightarrow> phase \<Rightarrow> flags \<Rightarrow> event list \<Rightarrow> lifecycle \<Rightarrow> run result option" where
  "process env p flags evs s = run env (Step (Process p flags)) evs s"

definition end_auto ::
  "env \<Rightarrow> auto \<Rightarrow> flags option \<Rightarrow> event list \<Rightarrow> lifecycle \<Rightarrow> run result option" where
  "end_auto env a flags evs s = run env (Step (End a flags)) evs s"

definition inline ::
  "env \<Rightarrow> auto \<Rightarrow> cmd list \<Rightarrow> flags option \<Rightarrow> event list \<Rightarrow> lifecycle \<Rightarrow> run result option" where
  "inline env a fn flags evs s =
     exec env (Effect (\<lambda>s. Inr (begin_auto a s)) # fn @ [End a flags]) evs s"

definition flush_all ::
  "env \<Rightarrow> flags \<Rightarrow> item list \<Rightarrow> event list \<Rightarrow> lifecycle \<Rightarrow> run result option" where
  "flush_all env flags batch evs s = run env (FlushAll flags batch) evs s"

definition batch_rounds ::
  "env \<Rightarrow> flags \<Rightarrow> event list \<Rightarrow> lifecycle \<Rightarrow> run result option" where
  "batch_rounds env flags evs s = run env (Rounds flags) evs s"

definition batch_process ::
  "env \<Rightarrow> flags \<Rightarrow> event list \<Rightarrow> lifecycle \<Rightarrow> run result option" where
  "batch_process env flags evs s = run env (Step (BatchProcess flags)) evs s"

definition batch_end ::
  "env \<Rightarrow> flags option \<Rightarrow> event list \<Rightarrow> lifecycle \<Rightarrow> run result option" where
  "batch_end env flags evs s = run env (Step (BatchEnd flags)) evs s"

definition batch_inline ::
  "env \<Rightarrow> cmd list \<Rightarrow> flags option \<Rightarrow> event list \<Rightarrow> lifecycle \<Rightarrow> run result option" where
  "batch_inline env fn flags evs s =
     exec env (Effect (\<lambda>s. Inr (batch_begin s)) # fn @ [BatchEnd flags]) evs s"

text \<open>
  The calls a callback can make that run no drain, as commands, and sequencing: \<open>and_then m f\<close>
  goes on with \<open>f\<close> where \<open>m\<close> returned, and is \<open>m\<close> where \<open>m\<close> threw or never
  returned.
\<close>

abbreviation Add :: "phase \<Rightarrow> item \<Rightarrow> cmd" where
  "Add p c \<equiv> Effect (add p c)"

abbreviation Remove :: "phase \<Rightarrow> item \<Rightarrow> cmd" where
  "Remove p c \<equiv> Effect (\<lambda>s. Inr (remove p c s))"

abbreviation Begin :: "auto \<Rightarrow> cmd" where
  "Begin a \<equiv> Effect (\<lambda>s. Inr (begin_auto a s))"

abbreviation BatchAdd :: "item \<Rightarrow> cmd" where
  "BatchAdd c \<equiv> Effect (\<lambda>s. Inr (batch_add c s))"

abbreviation BatchBegin :: cmd where
  "BatchBegin \<equiv> Effect (\<lambda>s. Inr (batch_begin s))"

abbreviation Throw :: "error \<Rightarrow> cmd" where
  "Throw e \<equiv> Effect (\<lambda>s. Inl (e, s))"

definition and_then ::
  "run result option \<Rightarrow> (event list \<Rightarrow> lifecycle \<Rightarrow> run result option) \<Rightarrow> run result option" where
  "and_then m f =
     Option.bind m (\<lambda>r. case r of Inl x \<Rightarrow> Some (Inl x) | Inr y \<Rightarrow> f (fst y) (snd y))"

subsection \<open>The list a queue holds\<close>

text \<open>
  The invariants of an intrusive queue, as predicates on the state: following the next
  links from \<open>head\<close> visits exactly the items \<open>xs\<close> and ends at \<^verbatim>\<open>undefined\<close>
  (\<open>path\<close>), every item's previous link names the item before it (\<open>backs\<close>), no item
  occurs twice, and \<open>tail\<close> is the last item, or \<^verbatim>\<open>undefined\<close> when there is none.
  A queue is \<open>tidy\<close> when, besides, every item it does not hold is unlinked.
  An item is \<open>unlinked\<close> when both its link fields are \<^verbatim>\<open>undefined\<close>, as on a controller
  that was never queued or has been processed or removed. \<open>same_queue p s s'\<close>: the queue of
  phase \<open>p\<close> and the link fields it owns are the same in \<open>s\<close> and \<open>s'\<close>.
  \<open>adds p cs\<close> is \<^verbatim>\<open>add(c)\<close> for each \<open>c\<close> of \<open>cs\<close> in turn, up to the first that throws.
\<close>

fun path :: "(item \<Rightarrow> item option) \<Rightarrow> item option \<Rightarrow> item list \<Rightarrow> item option \<Rightarrow> bool" where
  "path nx x [] y = (x = y)"
| "path nx x (a # as) y = (x = Some a \<and> path nx (nx a) as y)"

fun backs :: "(item \<Rightarrow> item option) \<Rightarrow> item option \<Rightarrow> item list \<Rightarrow> bool" where
  "backs pv x [] = True"
| "backs pv x (a # as) = (pv a = x \<and> backs pv (Some a) as)"

definition holds :: "lifecycle \<Rightarrow> phase \<Rightarrow> item list \<Rightarrow> bool" where
  "holds s p xs =
     (distinct xs \<and> path (nexts s p) (head s p) xs None \<and> backs (prevs s p) None xs \<and>
      tail s p = (if xs = [] then None else Some (last xs)))"

definition unlinked :: "lifecycle \<Rightarrow> phase \<Rightarrow> item \<Rightarrow> bool" where
  "unlinked s p c = (nexts s p c = None \<and> prevs s p c = None)"

definition same_queue :: "phase \<Rightarrow> lifecycle \<Rightarrow> lifecycle \<Rightarrow> bool" where
  "same_queue p s s' =
     (head s' p = head s p \<and> tail s' p = tail s p \<and>
      nexts s' p = nexts s p \<and> prevs s' p = prevs s p)"

fun adds :: "phase \<Rightarrow> item list \<Rightarrow> lifecycle \<Rightarrow> lifecycle result" where
  "adds p [] s = Inr s"
| "adds p (c # cs) s = (case add p c s of Inl x \<Rightarrow> Inl x | Inr s1 \<Rightarrow> adds p cs s1)"

definition tidy :: "lifecycle \<Rightarrow> phase \<Rightarrow> item list \<Rightarrow> bool" where
  "tidy s p xs = (holds s p xs \<and> (\<forall>c. c \<notin> set xs \<longrightarrow> unlinked s p c))"

subsection \<open>What a callback does to the queue that invokes it\<close>

text \<open>
  Called with the flags \<open>fl\<close>, a callback is \<open>quiet\<close> for a queue when it returns
  normally, has invoked no callback itself, and leaves the queue's \<open>head\<close>, \<open>tail\<close>
  and link fields as they were (it does not re-enter the queue); it \<open>throws\<close> \<open>e\<close> when
  it raises \<open>e\<close>, again with no callback invoked and the queue left alone; and it
  \<open>adds_only\<close> the items \<open>ds\<close> when it invokes no callback and all it does to the queue is
  to call \<^verbatim>\<open>add\<close> on it for each of \<open>ds\<close>, in order. What the callback does to the other
  queues is free, as long as it runs no drain that calls a callback;
  \<open>leaves env p fl c q\<close> says that it leaves queue \<open>q\<close> as it was when it returns.
  \<open>untouched p A s s'\<close>: outside \<open>A\<close>, the link fields of phase \<open>p\<close> are the same in
  \<open>s\<close> and \<open>s'\<close>.
\<close>

definition adds_only :: "env \<Rightarrow> phase \<Rightarrow> flags \<Rightarrow> item \<Rightarrow> item list \<Rightarrow> bool" where
  "adds_only env p fl c ds =
     (\<forall>evs s. case adds p ds s of
                Inl x \<Rightarrow> exec env (hook env p c fl) evs s = Some (Inl (fst x, (evs, snd x)))
              | Inr s1 \<Rightarrow>
                  (\<exists>s'. exec env (hook env p c fl) evs s = Some (Inr (evs, s')) \<and>
                        same_queue p s1 s'))"

definition quiet :: "env \<Rightarrow> phase \<Rightarrow> flags \<Rightarrow> item \<Rightarrow> bool" where
  "quiet env p fl c =
     (\<forall>evs s. \<exists>s'. exec env (hook env p c fl) evs s = Some (Inr (evs, s')) \<and> same_queue p s s')"

definition throws :: "env \<Rightarrow> phase \<Rightarrow> flags \<Rightarrow> item \<Rightarrow> error \<Rightarrow> bool" where
  "throws env p fl c e =
     (\<forall>evs s. \<exists>s'. exec env (hook env p c fl) evs s = Some (Inl (e, (evs, s'))) \<and>
                   same_queue p s s')"


definition untouched :: "phase \<Rightarrow> item set \<Rightarrow> lifecycle \<Rightarrow> lifecycle \<Rightarrow> bool" where
  "untouched p A s s' =
     (\<forall>x. x \<notin> A \<longrightarrow> nexts s' p x = nexts s p x \<and> prevs s' p x = prevs s p x)"

text \<open>
  The same for \<^verbatim>\<open>flushBatch\<close> and the batch queue: \<open>flush_adds env fl c ds\<close> when the
  callback of \<open>c\<close>, called with \<open>fl\<close>, returns normally, has invoked no callback, and all
  it does to \<^verbatim>\<open>queue\<close> is to push \<open>ds\<close>; \<open>flush_throws env fl c e\<close> when it raises
  \<open>e\<close>, has invoked no callback and leaves \<^verbatim>\<open>queue\<close> alone.
\<close>

definition flush_adds :: "env \<Rightarrow> flags \<Rightarrow> item \<Rightarrow> item list \<Rightarrow> bool" where
  "flush_adds env fl c ds =
     (\<forall>evs s. \<exists>s'. exec env (flushBatch env c fl) evs s = Some (Inr (evs, s')) \<and>
                   queue s' = queue s @ ds)"

definition flush_throws :: "env \<Rightarrow> flags \<Rightarrow> item \<Rightarrow> error \<Rightarrow> bool" where
  "flush_throws env fl c e =
     (\<forall>evs s. \<exists>s'. exec env (flushBatch env c fl) evs s = Some (Inl (e, (evs, s'))) \<and>
                   queue s' = queue s)"

subsection \<open>The drains as the specification words them\<close>

text \<open>
  One pass over a phase queue: the callback of each item of the chain is invoked once, in
  order, with the flags of the drain, and the item's link fields are cleared right after its
  callback returns; a callback that throws ends the pass. \<open>visit_all\<close> is this pass over
  a list of items, with no pointer followed.

  The rounds of a drain: a round visits the whole sequence \<open>xs\<close> and leaves the items the
  callbacks enqueued, \<open>concat (map sp xs)\<close>, for the next round. \<open>flushed sp n xs\<close> is
  what \<open>n\<close> rounds visit, in order, and \<open>pending sp n xs\<close> what is in the queue after
  them.
\<close>

fun visit_all ::
  "env \<Rightarrow> phase \<Rightarrow> flags \<Rightarrow> item list \<Rightarrow> event list \<Rightarrow> lifecycle \<Rightarrow> run result option" where
  "visit_all env p fl [] evs s = Some (Inr (evs, s))"
| "visit_all env p fl (x # xs) evs s =
     (case exec env (hook env p x fl) (evs @ [Hook p x fl]) s of
        None \<Rightarrow> None
      | Some r \<Rightarrow>
          (case r of
             Inl e \<Rightarrow> Some (Inl e)
           | Inr y \<Rightarrow>
               visit_all env p fl xs (fst y) (set_prev p x None (set_next p x None (snd y)))))"

fun flushed :: "(item \<Rightarrow> item list) \<Rightarrow> nat \<Rightarrow> item list \<Rightarrow> item list" where
  "flushed sp 0 xs = []"
| "flushed sp (Suc n) xs = xs @ flushed sp n (concat (map sp xs))"

fun pending :: "(item \<Rightarrow> item list) \<Rightarrow> nat \<Rightarrow> item list \<Rightarrow> item list" where
  "pending sp 0 xs = xs"
| "pending sp (Suc n) xs = pending sp n (concat (map sp xs))"

subsection \<open>Collaborators of the scenarios\<close>

text \<open>
  Sets of callbacks for the scenarios the properties are tried on.

  \<^item> In \<open>silent\<close> every callback returns at once.
  \<^item> In \<open>tracing\<close> the callback of item \<open>c\<close>, called with the flags \<open>fl\<close>, pushes
    \<open>c + fl\<close> on the batch queue: what the callbacks of a drain have pushed tells which
    of them ran, in which order and with which flags.
  \<^item> In \<open>reentrant\<close> the callback of controller 1 adds controller 4 to the queue that is
    being drained.
  \<^item> In \<open>cascade\<close> the callback of item 1 adds item 4 to the queue being drained and that
    of item 4 adds item 5; a phase callback throws unless its flags are 5, and a
    \<^verbatim>\<open>flushBatch\<close> throws unless the \<^verbatim>\<open>fromBatch\<close> bit, 8 here, is set in its flags.
  \<^item> In \<open>inlining\<close> the callback of controller 1 adds controller 4 to the bind queue inside
    a \<^verbatim>\<open>begin\<close>/\<^verbatim>\<open>end\<close> pair of its own on that queue.
  \<^item> In \<open>nesting\<close> the \<^verbatim>\<open>mount\<close> callback of controller 1 calls \<^verbatim>\<open>begin\<close> and then
    \<^verbatim>\<open>end\<close> on the attach queue.
  \<^item> In \<open>failing\<close> the callback of item 1 adds item 3 to the queue being drained, that of
    item 2 adds the items 4 and 5, that of item 3 adds item 6, and that of item 4 throws.
\<close>

definition silent :: env where
  "silent =
     \<lparr>LifecycleFlags_none = 0, LifecycleFlags_fromBatch = 8,
      hook = (\<lambda>p c fl. []), flushBatch = (\<lambda>c fl. [])\<rparr>"

definition tracing :: env where
  "tracing =
     \<lparr>LifecycleFlags_none = 0, LifecycleFlags_fromBatch = 8,
      hook = (\<lambda>p c fl. [BatchAdd (c + unat fl)]), flushBatch = (\<lambda>c fl. [])\<rparr>"

definition reentrant :: env where
  "reentrant =
     \<lparr>LifecycleFlags_none = 0, LifecycleFlags_fromBatch = 8,
      hook = (\<lambda>p c fl. if c = 1 then [Add p 4] else []),
      flushBatch = (\<lambda>c fl. if c = 1 then [BatchAdd 2] else [])\<rparr>"

definition cascade :: env where
  "cascade =
     \<lparr>LifecycleFlags_none = 0, LifecycleFlags_fromBatch = 8,
      hook = (\<lambda>p c fl. if fl \<noteq> 5 then [Throw (Thrown 9)]
                       else if c = 1 then [Add p 4] else if c = 4 then [Add p 5] else []),
      flushBatch = (\<lambda>c fl. if fl AND 8 = 0 then [Throw (Thrown 9)]
                           else if c = 1 then [BatchAdd 4]
                           else if c = 4 then [BatchAdd 5] else [])\<rparr>"

definition inlining :: env where
  "inlining =
     \<lparr>LifecycleFlags_none = 0, LifecycleFlags_fromBatch = 8,
      hook = (\<lambda>p c fl. if c = 1 then [Begin Bound, Add (Auto Bound) 4, End Bound None] else []),
      flushBatch = (\<lambda>c fl. [])\<rparr>"


definition failing :: env where
  "failing =
     \<lparr>LifecycleFlags_none = 0, LifecycleFlags_fromBatch = 8,
      hook = (\<lambda>p c fl. if c = 1 then [Add p 3] else if c = 2 then [Add p 4, Add p 5]
                       else if c = 3 then [Add p 6] else if c = 4 then [Throw (Thrown 7)]
                       else []),
      flushBatch = (\<lambda>c fl. if c = 1 then [BatchAdd 3] else if c = 2 then [BatchAdd 4, BatchAdd 5]
                           else if c = 3 then [BatchAdd 6] else if c = 4 then [Throw (Thrown 7)]
                           else [])\<rparr>"

text \<open>
  Two closures for \<^verbatim>\<open>inline\<close>: \<open>noop\<close> returns at once, \<open>thrower\<close> throws at once.
\<close>

definition noop :: "cmd list" where
  "noop = []"

definition thrower :: "cmd list" where
  "thrower = [Throw (Thrown 7)]"

section \<open>Properties\<close>

subsection \<open>The equations of the drains\<close>

lemma and_then_simps [simp]:
  "and_then None f = None"
  "and_then (Some (Inl x)) f = Some (Inl x)"
  "and_then (Some (Inr (evs, s))) f = f evs s"
  by (simp_all add: and_then_def)

lemma and_then_return [simp]: "and_then m (\<lambda>evs s. Some (Inr (evs, s))) = m"
  by (cases m) (auto simp: and_then_def split: sum.splits)

lemma and_then_assoc:
  "and_then (and_then m f) g = and_then m (\<lambda>evs s. and_then (f evs s) g)"
  by (cases m) (auto simp: and_then_def split: sum.splits)

lemma and_then_Inr:
  "m = Some (Inr (evs, s)) \<Longrightarrow> and_then m f = f evs s"
  by simp

lemma exec_Nil [simp]: "exec env [] = (\<lambda>evs s. Some (Inr (evs, s)))"
  unfolding exec_def by (rule ext, rule ext, subst run.simps) simp

lemma exec_Cons [simp]:
  "exec env (c # rest) = (\<lambda>evs s. and_then (step env c evs s) (exec env rest))"
  unfolding exec_def step_def and_then_def by (rule ext, rule ext, subst run.simps) simp

lemma exec_append:
  "exec env (xs @ ys) = (\<lambda>evs s. and_then (exec env xs evs s) (exec env ys))"
  by (induction xs) (simp_all add: and_then_assoc)

lemma step_Effect [simp]:
  "step env (Effect f) =
     (\<lambda>evs s. case f s of Inl x \<Rightarrow> Some (Inl (fst x, (evs, snd x)))
                        | Inr s1 \<Rightarrow> Some (Inr (evs, s1)))"
  unfolding step_def by (rule ext, rule ext, subst run.simps) simp

lemma step_Process [simp]: "step env (Process p fl) = process env p fl"
  by (rule ext, rule ext) (simp add: step_def process_def)

lemma step_Dyn [simp]: "step env (Dyn g) = (\<lambda>evs s. exec env (g s) evs s)"
  unfolding step_def exec_def by (rule ext, rule ext, subst run.simps) simp

lemma step_End [simp]: "step env (End a fo) = end_auto env a fo"
  by (rule ext, rule ext) (simp add: step_def end_auto_def)

lemma step_BatchProcess [simp]: "step env (BatchProcess fl) = batch_process env fl"
  by (rule ext, rule ext) (simp add: step_def batch_process_def)

lemma step_BatchEnd [simp]: "step env (BatchEnd fo) = batch_end env fo"
  by (rule ext, rule ext) (simp add: step_def batch_end_def)

lemma walk_unfold:
  "walk env p fl cur evs s =
     and_then (exec env (hook env p cur fl) (evs @ [Hook p cur fl]) s)
       (\<lambda>evs1 s1. case nexts s1 p cur of
                     None \<Rightarrow> Some (Inr (evs1, set_prev p cur None (set_next p cur None s1)))
                   | Some n \<Rightarrow> walk env p fl n evs1 (set_prev p cur None (set_next p cur None s1)))"
  unfolding walk_def exec_def and_then_def by (subst run.simps) simp

lemma process_unfold:
  "process env p fl evs s =
     (case head s p of
        None \<Rightarrow> Some (Inr (evs, s))
      | Some cur \<Rightarrow>
          and_then (walk env p fl cur evs (set_head p None (set_tail p None s)))
            (process env p fl))"
  unfolding walk_def process_def and_then_def by (subst run.simps) simp

lemma flush_all_Nil [simp]: "flush_all env fl [] = (\<lambda>evs s. Some (Inr (evs, s)))"
  unfolding flush_all_def by (rule ext, rule ext, subst run.simps) simp

lemma flush_all_Cons [simp]:
  "flush_all env fl (b # rest) evs s =
     and_then (exec env (flushBatch env b fl) (evs @ [Flush b fl]) s) (flush_all env fl rest)"
  unfolding flush_all_def exec_def and_then_def by (subst run.simps) simp

lemma batch_rounds_unfold:
  "batch_rounds env fl evs s =
     (if length (queue s) > 0
      then and_then (flush_all env fl (queue s) evs (s\<lparr>queue := []\<rparr>)) (batch_rounds env fl)
      else Some (Inr (evs, s)))"
  unfolding batch_rounds_def flush_all_def and_then_def by (subst run.simps) simp

lemma batch_process_unfold:
  "batch_process env fl evs s = batch_rounds env (fl OR LifecycleFlags_fromBatch env) evs s"
  unfolding batch_process_def batch_rounds_def by (subst run.simps) simp

lemma exec_settle:
  "exec env (settle a fl) evs s =
     (case a of
        Attached \<Rightarrow> and_then (process env Mount fl evs s) (process env (Auto Attached) fl)
      | Detached \<Rightarrow> and_then (process env Unmount fl evs s) (process env (Auto Detached) fl)
      | _ \<Rightarrow> process env (Auto a) fl evs s)"
  by (cases a) simp_all

lemma end_auto_unfold:
  "end_auto env a fo evs s =
     (if depth s a - 1 = 0
      then exec env (settle a (case fo of None \<Rightarrow> LifecycleFlags_none env | Some f \<Rightarrow> f)) evs
             (s\<lparr>depth := (depth s)(a := depth s a - 1)\<rparr>)
      else Some (Inr (evs, s\<lparr>depth := (depth s)(a := depth s a - 1)\<rparr>)))"
  unfolding end_auto_def exec_def by (subst run.simps) simp

lemma batch_end_unfold:
  "batch_end env fo evs s =
     (if batch_depth s - 1 = 0
      then batch_process env (case fo of None \<Rightarrow> LifecycleFlags_none env | Some f \<Rightarrow> f)
             evs (s\<lparr>batch_depth := batch_depth s - 1\<rparr>)
      else Some (Inr (evs, s\<lparr>batch_depth := batch_depth s - 1\<rparr>)))"
  unfolding batch_end_def batch_process_def by (subst run.simps) simp

lemma inline_unfold:
  "inline env a fn fo evs s =
     and_then (exec env fn evs (begin_auto a s)) (end_auto env a fo)"
  by (simp add: inline_def exec_append)

lemma batch_inline_unfold:
  "batch_inline env fn fo evs s =
     and_then (exec env fn evs (batch_begin s)) (batch_end env fo)"
  by (simp add: batch_inline_def exec_append)

subsection \<open>The list a queue holds\<close>

lemmas upd_defs = set_next_def set_prev_def set_head_def set_tail_def

lemma path_cong: "(\<And>x. x \<in> set xs \<Longrightarrow> nx x = nx' x) \<Longrightarrow> path nx h xs y = path nx' h xs y"
  by (induction xs arbitrary: h) auto

lemma backs_cong: "(\<And>x. x \<in> set xs \<Longrightarrow> pv x = pv' x) \<Longrightarrow> backs pv h xs = backs pv' h xs"
  by (induction xs arbitrary: h) auto

lemma path_append: "path nx x (as @ bs) z = (\<exists>y. path nx x as y \<and> path nx y bs z)"
  by (induction as arbitrary: x) auto

lemma path_last: "path nx x as y \<Longrightarrow> as \<noteq> [] \<Longrightarrow> nx (last as) = y"
  by (induction as arbitrary: x) auto

lemma path_hd: "path nx x as y \<Longrightarrow> as \<noteq> [] \<Longrightarrow> x = Some (hd as)"
  by (cases as) auto

lemma backs_append:
  "backs pv x (as @ bs) = (backs pv x as \<and> backs pv (if as = [] then x else Some (last as)) bs)"
  by (induction as arbitrary: x) auto

lemma path_upd_other: "u \<notin> set xs \<Longrightarrow> path (nx(u := v)) h xs y = path nx h xs y"
  by (rule path_cong) auto

lemma backs_upd_other: "u \<notin> set xs \<Longrightarrow> backs (pv(u := v)) h xs = backs pv h xs"
  by (rule backs_cong) auto

lemma path_snoc:
  assumes "path nx h ys None" "ys \<noteq> []" "d \<notin> set ys" "distinct ys" "nx d = None"
  shows "path (nx(last ys := Some d)) h (ys @ [d]) None"
proof -
  have ys: "ys = butlast ys @ [last ys]" using assms(2) by simp
  have nin: "last ys \<notin> set (butlast ys)"
    using assms(4) ys by (metis distinct_append distinct.simps(2) disjoint_iff list.set_intros(1) set_append Un_iff not_distinct_conv_prefix)
  have "path nx h (butlast ys @ [last ys]) None" using assms(1) ys by simp
  then have "path nx h (butlast ys) (Some (last ys))"
    by (auto simp: path_append)
  then have "path (nx(last ys := Some d)) h (butlast ys) (Some (last ys))"
    using nin by (simp add: path_upd_other)
  moreover have "path (nx(last ys := Some d)) (Some (last ys)) [last ys, d] None"
    using assms(2,3,5) by auto
  ultimately have "path (nx(last ys := Some d)) h (butlast ys @ [last ys, d]) None"
    unfolding path_append by blast
  moreover have "butlast ys @ [last ys, d] = ys @ [d]" using ys by (metis append.assoc append_Cons append_Nil)
  ultimately show ?thesis by simp
qed

lemma backs_snoc:
  "backs pv x ys \<Longrightarrow> ys \<noteq> [] \<Longrightarrow> d \<notin> set ys \<Longrightarrow> backs (pv(d := Some (last ys))) x (ys @ [d])"
  by (simp add: backs_append backs_upd_other)

lemma add_holds:
  assumes "holds s p ys" "d \<notin> set ys" "unlinked s p d"
  shows "\<exists>s'. add p d s = Inr s' \<and> holds s' p (ys @ [d]) \<and>
          (\<forall>x. x \<notin> set ys \<and> x \<noteq> d \<longrightarrow> nexts s' p x = nexts s p x \<and> prevs s' p x = prevs s p x)"
proof (cases "ys = []")
  case True
  with assms show ?thesis
    by (auto simp: add_def holds_def unlinked_def upd_defs)
next
  case False
  then have hd: "head s p = Some (hd ys)" using assms(1) by (auto simp: holds_def dest: path_hd)
  have tl: "tail s p = Some (last ys)" using assms(1) False by (simp add: holds_def)
  show ?thesis
    using assms False hd tl
    by (auto simp: add_def holds_def unlinked_def upd_defs Let_def path_snoc backs_snoc)
qed

lemma untouched_refl: "untouched p A s s"
  by (simp add: untouched_def)

lemma untouched_trans:
  "untouched p A s s1 \<Longrightarrow> untouched p B s1 s2 \<Longrightarrow> A \<union> B \<subseteq> C \<Longrightarrow> untouched p C s s2"
  unfolding untouched_def by (metis Un_iff subsetD)

lemma untouched_same_queue: "same_queue p s s' \<Longrightarrow> untouched p A s s'"
  by (simp add: untouched_def same_queue_def)

lemma untouched_unlinked: "untouched p A s s' \<Longrightarrow> x \<notin> A \<Longrightarrow> unlinked s p x \<Longrightarrow> unlinked s' p x"
  by (simp add: untouched_def unlinked_def)

lemma untouched_path:
  "untouched p A s s' \<Longrightarrow> set xs \<inter> A = {} \<Longrightarrow> path (nexts s' p) h xs y = path (nexts s p) h xs y"
  by (rule path_cong) (auto simp: untouched_def)

lemma holds_same_queue: "same_queue p s s' \<Longrightarrow> holds s p xs \<Longrightarrow> holds s' p xs"
  by (simp add: holds_def same_queue_def)


lemma quiet_adds_only: "quiet env p fl c \<Longrightarrow> adds_only env p fl c []"
  by (simp add: quiet_def adds_only_def)

lemma add_holds':
  assumes "holds s p ys" "d \<notin> set ys" "unlinked s p d"
  shows "\<exists>s'. add p d s = Inr s' \<and> holds s' p (ys @ [d]) \<and> untouched p (set ys \<union> {d}) s s'"
  using add_holds[OF assms] by (auto simp: untouched_def)

lemma adds_holds:
  assumes "holds s p ys" "distinct (ys @ ds)" "\<forall>d\<in>set ds. unlinked s p d"
  shows "\<exists>s'. adds p ds s = Inr s' \<and> holds s' p (ys @ ds) \<and> untouched p (set ys \<union> set ds) s s'"
  using assms
proof (induction ds arbitrary: s ys)
  case Nil
  then show ?case by (simp add: untouched_refl)
next
  case (Cons d ds)
  from Cons.prems obtain s1 where s1: "add p d s = Inr s1" "holds s1 p (ys @ [d])"
      "untouched p (set ys \<union> {d}) s s1"
    using add_holds'[of s p ys d] by auto
  have "\<forall>x\<in>set ds. unlinked s1 p x"
    using Cons.prems(2,3) s1(3) by (auto intro: untouched_unlinked)
  moreover have "distinct ((ys @ [d]) @ ds)" using Cons.prems(2) by simp
  ultimately obtain s' where s': "adds p ds s1 = Inr s'" "holds s' p ((ys @ [d]) @ ds)"
      "untouched p (set (ys @ [d]) \<union> set ds) s1 s'"
    using Cons.IH[OF s1(2)] by blast
  have "untouched p (set ys \<union> set (d # ds)) s s'"
    using s1(3) s'(3) by (rule untouched_trans) auto
  then show ?case using s1(1) s' by simp
qed

lemma holds_clear:
  "holds s p ys \<Longrightarrow> c \<notin> set ys \<Longrightarrow> holds (set_prev p c None (set_next p c None s)) p ys"
  by (simp add: holds_def upd_defs path_upd_other backs_upd_other)

lemma untouched_clear: "untouched p {c} s (set_prev p c None (set_next p c None s))"
  by (simp add: untouched_def upd_defs)

lemma unlinked_clear: "unlinked (set_prev p c None (set_next p c None s)) p c"
  by (simp add: unlinked_def upd_defs)


lemma holds_split:
  assumes "holds s p (as @ x # bs)"
  shows "prevs s p x = (if as = [] then None else Some (last as))"
    and "nexts s p x = (if bs = [] then None else Some (hd bs))"
    and "head s p = Some (hd (as @ [x]))"
    and "tail s p = Some (last (x # bs))"
    and "x \<notin> set as" "x \<notin> set bs"
proof -
  from assms have p: "path (nexts s p) (head s p) (as @ x # bs) None"
    and b: "backs (prevs s p) None (as @ x # bs)" and d: "distinct (as @ x # bs)"
    and t: "tail s p = Some (last (as @ x # bs))"
    by (simp_all add: holds_def)
  show "prevs s p x = (if as = [] then None else Some (last as))"
    using b by (simp add: backs_append)
  from p obtain y where y: "path (nexts s p) (head s p) as y" "path (nexts s p) y (x # bs) None"
    unfolding path_append by blast
  then have "path (nexts s p) (nexts s p x) bs None" by simp
  then show "nexts s p x = (if bs = [] then None else Some (hd bs))"
    by (cases bs) auto
  show "head s p = Some (hd (as @ [x]))" using y by (cases as) auto
  show "tail s p = Some (last (x # bs))" using t by simp
  show "x \<notin> set as" "x \<notin> set bs" using d by auto
qed

lemma remove_first:
  assumes "holds s p (x # bs)"
  shows "head (remove p x s) p = None"
    and "tail (remove p x s) p = (if bs = [] then None else Some (last bs))"
proof -
  have h: "prevs s p x = None" "nexts s p x = (if bs = [] then None else Some (hd bs))"
    "head s p = Some x" "tail s p = Some (last (x # bs))" "x \<notin> set bs"
    using holds_split[of s p "[]" x bs] assms by simp_all
  have nl: "bs \<noteq> [] \<Longrightarrow> last bs \<noteq> x" using h(5) last_in_set by blast
  show "head (remove p x s) p = None"
    using h by (cases bs) (simp_all add: remove_def Let_def upd_defs)
  show "tail (remove p x s) p = (if bs = [] then None else Some (last bs))"
    using h(1-4) nl by (simp add: remove_def Let_def upd_defs)
qed

lemma remove_later:
  assumes "holds s p (as @ x # bs)" "as \<noteq> []"
  shows "head (remove p x s) p = Some (hd as)"
    and "tail (remove p x s) p = (if bs = [] then None else Some (last bs))"
    and "nexts (remove p x s) p = (nexts s p)(last as := nexts s p x, x := None)"
proof -
  note h = holds_split[OF assms(1)]
  have ne: "last as \<noteq> x" "hd as \<noteq> x" using h(5) assms(2) by auto
  have hd: "head s p = Some (hd as)" using h(3) assms(2) by simp
  have nl: "bs \<noteq> [] \<Longrightarrow> last bs \<noteq> x" using h(6) last_in_set by blast
  show "head (remove p x s) p = Some (hd as)"
    using h(1,2,4,6) hd ne assms(2) by (cases bs) (simp_all add: remove_def Let_def upd_defs)
  show "tail (remove p x s) p = (if bs = [] then None else Some (last bs))"
    using h(1,2,4) hd ne nl assms(2) by (simp add: remove_def Let_def upd_defs)
  show "nexts (remove p x s) p = (nexts s p)(last as := nexts s p x, x := None)"
    using h(1,2,4,6) hd ne assms(2) by (cases bs) (auto simp add: remove_def Let_def upd_defs)
qed

lemma path_unlink:
  assumes "path nx h (as @ x # bs) None" "distinct (as @ x # bs)" "as \<noteq> []"
  shows "path (nx(last as := nx x, x := None)) h (as @ bs) None"
proof -
  let ?nx = "nx(last as := nx x, x := None)"
  have as: "as = butlast as @ [last as]" using assms(3) by simp
  have n1: "last as \<notin> set (butlast as)" "x \<notin> set (butlast as)" "last as \<noteq> x"
    "x \<notin> set bs" "last as \<notin> set bs"
  proof -
    have "distinct (butlast as @ last as # x # bs)"
      using assms(2) as by (metis append.assoc append_Cons append_Nil)
    then show "last as \<notin> set (butlast as)" "x \<notin> set (butlast as)" "last as \<noteq> x"
      "x \<notin> set bs" "last as \<notin> set bs"
      by auto
  qed
  from assms(1) have p1: "path nx h as (Some x)" and p2: "path nx (nx x) bs None"
    by (auto simp: path_append)
  from p1 as have "path nx h (butlast as @ [last as]) (Some x)" by simp
  then have p3: "path nx h (butlast as) (Some (last as))" by (auto simp: path_append)
  have q1: "path ?nx h (butlast as) (Some (last as))"
    using p3 n1(1,2) by (simp add: path_upd_other)
  have q2: "path ?nx (Some (last as)) [last as] (nx x)" using n1(3) by simp
  have q3: "path ?nx (nx x) bs None" using p2 n1(4,5) by (simp add: path_upd_other)
  have "path ?nx h (butlast as @ [last as] @ bs) None"
    unfolding path_append using q1 q2 q3 by blast
  then show ?thesis using as by (metis append.assoc)
qed

lemma remove_absent:
  assumes "holds s p xs" "x \<notin> set xs" "unlinked s p x"
  shows "remove p x s = s"
proof -
  have "tail s p \<noteq> Some x" using assms(1,2) by (auto simp: holds_def split: if_splits)
  moreover have "head s p \<noteq> Some x" using assms(1,2) by (cases xs) (auto simp: holds_def)
  ultimately show ?thesis using assms(3)
    by (simp add: remove_def Let_def upd_defs unlinked_def fun_upd_idem)
qed

subsection \<open>One round of a drain\<close>

lemma adds_onlyD:
  assumes "adds_only env p fl c ds" "adds p ds s = Inr s1"
  shows "\<exists>s'. exec env (hook env p c fl) evs s = Some (Inr (evs, s')) \<and> same_queue p s1 s'"
proof -
  have "case adds p ds s of
          Inl x \<Rightarrow> exec env (hook env p c fl) evs s = Some (Inl (fst x, (evs, snd x)))
        | Inr s1 \<Rightarrow> (\<exists>s'. exec env (hook env p c fl) evs s = Some (Inr (evs, s')) \<and>
                         same_queue p s1 s')"
    using assms(1) unfolding adds_only_def by blast
  then show ?thesis by (simp add: assms(2))
qed

lemma hook_step:
  assumes "adds_only env p fl c ds" "holds s p ys" "distinct (ys @ ds)" "c \<notin> set ys \<union> set ds"
    and "\<forall>d\<in>set ds. unlinked s p d"
  shows "\<exists>s2. exec env (hook env p c fl) evs s = Some (Inr (evs, s2)) \<and>
           nexts s2 p c = nexts s p c \<and>
           holds (set_prev p c None (set_next p c None s2)) p (ys @ ds) \<and>
           untouched p (set ys \<union> {c} \<union> set ds) s (set_prev p c None (set_next p c None s2)) \<and>
           unlinked (set_prev p c None (set_next p c None s2)) p c"
proof -
  obtain s1 where s1: "adds p ds s = Inr s1" "holds s1 p (ys @ ds)"
      "untouched p (set ys \<union> set ds) s s1"
    using adds_holds[OF assms(2,3,5)] by blast
  obtain s2 where s2: "exec env (hook env p c fl) evs s = Some (Inr (evs, s2))"
      "same_queue p s1 s2"
    using adds_onlyD[OF assms(1) s1(1), of evs] by blast
  let ?s3 = "set_prev p c None (set_next p c None s2)"
  have nx: "nexts s2 p c = nexts s p c"
    using s2(2) s1(3) assms(4) by (auto simp: same_queue_def untouched_def)
  have h: "holds ?s3 p (ys @ ds)"
    using holds_same_queue[OF s2(2) s1(2)] assms(4) by (intro holds_clear) auto
  have "untouched p (set ys \<union> set ds) s s2"
    using s1(3) untouched_same_queue[OF s2(2), of "{}"] by (rule untouched_trans) simp
  then have f: "untouched p (set ys \<union> {c} \<union> set ds) s ?s3"
    using untouched_clear by (rule untouched_trans) auto
  show ?thesis using s2(1) nx h f unlinked_clear[of p c s2] by blast
qed

lemma walk_adds:
  assumes "\<forall>x\<in>set (c # cs). adds_only env p fl x (sp x)"
    and "holds s p ys"
    and "path (nexts s p) (Some c) (c # cs) None"
    and "distinct (ys @ c # cs @ concat (map sp (c # cs)))"
    and "\<forall>d\<in>set (concat (map sp (c # cs))). unlinked s p d"
  shows "\<exists>s'. walk env p fl c evs s = Some (Inr (evs @ map (\<lambda>x. Hook p x fl) (c # cs), s')) \<and>
           holds s' p (ys @ concat (map sp (c # cs))) \<and>
           (\<forall>x\<in>set (c # cs). unlinked s' p x) \<and>
           untouched p (set ys \<union> set (c # cs) \<union> set (concat (map sp (c # cs)))) s s'"
  using assms
proof (induction cs arbitrary: c evs s ys)
  case Nil
  have "adds_only env p fl c (sp c)" "distinct (ys @ sp c)" "c \<notin> set ys \<union> set (sp c)"
    "\<forall>d\<in>set (sp c). unlinked s p d"
    using Nil.prems by auto
  from hook_step[OF this(1) Nil.prems(2) this(2,3,4), of "evs @ [Hook p c fl]"]
  obtain s2 where s2:
    "exec env (hook env p c fl) (evs @ [Hook p c fl]) s = Some (Inr (evs @ [Hook p c fl], s2))"
    "nexts s2 p c = nexts s p c"
    "holds (set_prev p c None (set_next p c None s2)) p (ys @ sp c)"
    "untouched p (set ys \<union> {c} \<union> set (sp c)) s (set_prev p c None (set_next p c None s2))"
    "unlinked (set_prev p c None (set_next p c None s2)) p c"
    by blast
  have nx: "nexts s2 p c = None" using s2(2) Nil.prems(3) by simp
  have w: "walk env p fl c evs s =
      Some (Inr (evs @ [Hook p c fl], set_prev p c None (set_next p c None s2)))"
    by (subst walk_unfold) (simp add: s2(1) nx)
  show ?case using w s2(3,4,5) by simp
next
  case (Cons c' cs)
  have "adds_only env p fl c (sp c)" "distinct (ys @ sp c)" "c \<notin> set ys \<union> set (sp c)"
    "\<forall>d\<in>set (sp c). unlinked s p d"
    using Cons.prems by auto
  from hook_step[OF this(1) Cons.prems(2) this(2,3,4), of "evs @ [Hook p c fl]"]
  obtain s2 where s2:
    "exec env (hook env p c fl) (evs @ [Hook p c fl]) s = Some (Inr (evs @ [Hook p c fl], s2))"
    "nexts s2 p c = nexts s p c"
    "holds (set_prev p c None (set_next p c None s2)) p (ys @ sp c)"
    "untouched p (set ys \<union> {c} \<union> set (sp c)) s (set_prev p c None (set_next p c None s2))"
    "unlinked (set_prev p c None (set_next p c None s2)) p c"
    by blast
  let ?s3 = "set_prev p c None (set_next p c None s2)"
  let ?evs = "evs @ [Hook p c fl]"
  have nx: "nexts s2 p c = Some c'" using s2(2) Cons.prems(3) by simp
  have w: "walk env p fl c evs s = walk env p fl c' ?evs ?s3"
    by (subst walk_unfold) (simp add: s2(1) nx)
  have a1: "\<forall>x\<in>set (c' # cs). adds_only env p fl x (sp x)" using Cons.prems(1) by simp
  have dis: "set (c' # cs) \<inter> (set ys \<union> {c} \<union> set (sp c)) = {}"
    using Cons.prems(4) by auto
  have "path (nexts s p) (Some c') (c' # cs) None" using Cons.prems(3) by simp
  then have a3: "path (nexts ?s3 p) (Some c') (c' # cs) None"
    using untouched_path[OF s2(4) dis, of "Some c'" None] by blast
  have a4: "distinct ((ys @ sp c) @ c' # cs @ concat (map sp (c' # cs)))"
    using Cons.prems(4) by auto
  have a5: "\<forall>d\<in>set (concat (map sp (c' # cs))). unlinked ?s3 p d"
  proof
    fix d assume d: "d \<in> set (concat (map sp (c' # cs)))"
    then have "unlinked s p d" using Cons.prems(5) by simp
    moreover have "d \<notin> set ys \<union> {c} \<union> set (sp c)" using d Cons.prems(4) by auto
    ultimately show "unlinked ?s3 p d" using untouched_unlinked[OF s2(4)] by blast
  qed
  from Cons.IH[OF a1 s2(3) a3 a4 a5, of ?evs]
  obtain s' where s': "walk env p fl c' ?evs ?s3 =
        Some (Inr (?evs @ map (\<lambda>x. Hook p x fl) (c' # cs), s'))"
      "holds s' p ((ys @ sp c) @ concat (map sp (c' # cs)))"
      "\<forall>x\<in>set (c' # cs). unlinked s' p x"
      "untouched p (set (ys @ sp c) \<union> set (c' # cs) \<union> set (concat (map sp (c' # cs)))) ?s3 s'"
    by blast
  have cn: "c \<notin> set (ys @ sp c) \<union> set (c' # cs) \<union> set (concat (map sp (c' # cs)))"
    using Cons.prems(4) by auto
  have uc: "unlinked s' p c" using untouched_unlinked[OF s'(4) cn s2(5)] .
  have f: "untouched p (set ys \<union> set (c # c' # cs) \<union> set (concat (map sp (c # c' # cs)))) s s'"
    using s2(4) s'(4) by (rule untouched_trans) auto
  show ?case using w s'(1,2,3) uc f by simp
qed

lemma process_empty: "head s p = None \<Longrightarrow> process env p fl evs s = Some (Inr (evs, s))"
  by (subst process_unfold) simp

lemma holds_Nil: "holds s p [] = (head s p = None \<and> tail s p = None)"
  by (auto simp: holds_def)

lemma process_round:
  assumes "xs \<noteq> []" "distinct (xs @ concat (map sp xs))"
    and "path (nexts s p) (head s p) xs None"
    and "\<forall>x\<in>set xs. adds_only env p fl x (sp x)"
    and "\<forall>d\<in>set (concat (map sp xs)). unlinked s p d"
  shows "\<exists>s'. process env p fl evs s = process env p fl (evs @ map (\<lambda>x. Hook p x fl) xs) s' \<and>
           holds s' p (concat (map sp xs)) \<and> (\<forall>x\<in>set xs. unlinked s' p x) \<and>
           untouched p (set xs \<union> set (concat (map sp xs))) s s'"
proof -
  obtain c cs where xs: "xs = c # cs" using assms(1) by (cases xs) auto
  let ?s0 = "set_head p None (set_tail p None s)"
  have hd: "head s p = Some c" using assms(3) xs by simp
  have a2: "holds ?s0 p []" by (simp add: holds_Nil upd_defs)
  have a3: "path (nexts ?s0 p) (Some c) (c # cs) None"
    using assms(3) xs by (simp add: upd_defs)
  have a4: "distinct ([] @ c # cs @ concat (map sp (c # cs)))" using assms(2) xs by simp
  have a5: "\<forall>d\<in>set (concat (map sp (c # cs))). unlinked ?s0 p d"
    using assms(5) xs by (simp add: unlinked_def upd_defs)
  have a1: "\<forall>x\<in>set (c # cs). adds_only env p fl x (sp x)" using assms(4) xs by simp
  from walk_adds[OF a1 a2 a3 a4 a5, of evs]
  obtain s' where s': "walk env p fl c evs ?s0 = Some (Inr (evs @ map (\<lambda>x. Hook p x fl) (c # cs), s'))"
      "holds s' p ([] @ concat (map sp (c # cs)))" "\<forall>x\<in>set (c # cs). unlinked s' p x"
      "untouched p (set [] \<union> set (c # cs) \<union> set (concat (map sp (c # cs)))) ?s0 s'"
    by blast
  have "untouched p {} s ?s0" by (simp add: untouched_def upd_defs)
  from untouched_trans[OF this s'(4), of "set xs \<union> set (concat (map sp xs))"]
  have f: "untouched p (set xs \<union> set (concat (map sp xs))) s s'" using xs by simp
  have "process env p fl evs s = process env p fl (evs @ map (\<lambda>x. Hook p x fl) (c # cs)) s'"
    by (subst process_unfold) (simp add: hd s'(1))
  then show ?thesis using s'(2,3) f xs by auto
qed

lemma process_drain:
  assumes "xs \<noteq> []" "distinct xs" "path (nexts s p) (head s p) xs None"
    and "\<forall>x\<in>set xs. quiet env p fl x"
  shows "\<exists>s'. process env p fl evs s = Some (Inr (evs @ map (\<lambda>x. Hook p x fl) xs, s')) \<and>
           head s' p = None \<and> tail s' p = None \<and> (\<forall>x\<in>set xs. unlinked s' p x)"
proof -
  have c: "concat (map (\<lambda>_. []) xs) = ([]::item list)" by simp
  have "\<forall>x\<in>set xs. adds_only env p fl x []" using assms(4) by (simp add: quiet_adds_only)
  from process_round[of xs "\<lambda>_. []", OF assms(1) _ assms(3) this, of evs]
  obtain s' where s': "process env p fl evs s = process env p fl (evs @ map (\<lambda>x. Hook p x fl) xs) s'"
      "holds s' p []" "\<forall>x\<in>set xs. unlinked s' p x"
    using assms(2) by (auto simp: c)
  have "head s' p = None" "tail s' p = None" using s'(2) by (simp_all add: holds_Nil)
  then show ?thesis using s'(1,3) process_empty[of s' p env fl] by simp
qed

subsection \<open>Rounds of a drain\<close>

lemma tidy_new: "tidy Lifecycle_new p []"
  by (simp add: tidy_def holds_Nil unlinked_def Lifecycle_new_def)

lemma tidy_Nil: "tidy s p [] \<Longrightarrow> head s p = None \<and> tail s p = None"
  by (simp add: tidy_def holds_Nil)

lemma adds_tidy:
  assumes "tidy s p ys" "distinct (ys @ ds)"
  shows "\<exists>s'. adds p ds s = Inr s' \<and> tidy s' p (ys @ ds)"
proof -
  have h: "holds s p ys" and u: "\<forall>d\<in>set ds. unlinked s p d"
    using assms by (auto simp: tidy_def)
  from adds_holds[OF h assms(2) u]
  obtain s' where s': "adds p ds s = Inr s'" "holds s' p (ys @ ds)"
      "untouched p (set ys \<union> set ds) s s'"
    by blast
  have "unlinked s' p c" if "c \<notin> set (ys @ ds)" for c
    using untouched_unlinked[OF s'(3), of c] that assms(1) by (simp add: tidy_def)
  then show ?thesis using s'(1,2) by (auto simp: tidy_def)
qed

lemma process_round_tidy:
  assumes "tidy s p xs" "xs \<noteq> []" "distinct (xs @ concat (map sp xs))"
    and "\<forall>x\<in>set xs. adds_only env p fl x (sp x)"
  shows "\<exists>s'. process env p fl evs s = process env p fl (evs @ map (\<lambda>x. Hook p x fl) xs) s' \<and>
           tidy s' p (concat (map sp xs))"
proof -
  have p: "path (nexts s p) (head s p) xs None" using assms(1) by (simp add: tidy_def holds_def)
  have u: "\<forall>d\<in>set (concat (map sp xs)). unlinked s p d"
    using assms(1,3) by (auto simp: tidy_def)
  from process_round[OF assms(2,3) p assms(4) u, of evs]
  obtain s' where s':
      "process env p fl evs s = process env p fl (evs @ map (\<lambda>x. Hook p x fl) xs) s'"
      "holds s' p (concat (map sp xs))" "\<forall>x\<in>set xs. unlinked s' p x"
      "untouched p (set xs \<union> set (concat (map sp xs))) s s'"
    by blast
  have "unlinked s' p c" if c: "c \<notin> set (concat (map sp xs))" for c
  proof (cases "c \<in> set xs")
    case True
    then show ?thesis using s'(3) by blast
  next
    case False
    then have "unlinked s p c" using assms(1) by (simp add: tidy_def)
    then show ?thesis using untouched_unlinked[OF s'(4), of c] False c by blast
  qed
  then show ?thesis using s'(1,2) unfolding tidy_def by blast
qed

lemma flushed_Nil: "flushed sp n [] = []"
  by (induction n) auto

lemma pending_Nil: "pending sp n [] = []"
  by (induction n) auto

lemma process_rounds:
  assumes "tidy s p xs"
    and "\<forall>x\<in>set (flushed sp n xs). adds_only env p fl x (sp x)"
    and "\<forall>i<n. distinct (pending sp i xs @ pending sp (Suc i) xs)"
    and "pending sp n xs = []"
  shows "\<exists>s'. process env p fl evs s =
             Some (Inr (evs @ map (\<lambda>x. Hook p x fl) (flushed sp n xs), s')) \<and>
           tidy s' p []"
  using assms
proof (induction n arbitrary: xs s evs)
  case 0
  then have "xs = []" by simp
  then show ?case using 0(1) process_empty[of s p env fl evs] tidy_Nil[of s p] by simp
next
  case (Suc n)
  show ?case
  proof (cases "xs = []")
    case True
    then show ?thesis
      using Suc.prems(1) process_empty[of s p env fl evs] tidy_Nil[of s p]
      by (simp add: flushed_Nil)
  next
    case False
    let ?ys = "concat (map sp xs)"
    have d: "distinct (xs @ ?ys)" using Suc.prems(3)[rule_format, of 0] by simp
    have a: "\<forall>x\<in>set xs. adds_only env p fl x (sp x)" using Suc.prems(2) by simp
    from process_round_tidy[OF Suc.prems(1) False d a, of evs]
    obtain s1 where s1:
        "process env p fl evs s = process env p fl (evs @ map (\<lambda>x. Hook p x fl) xs) s1"
        "tidy s1 p ?ys"
      by blast
    have a': "\<forall>x\<in>set (flushed sp n ?ys). adds_only env p fl x (sp x)"
      using Suc.prems(2) by simp
    have d': "\<forall>i<n. distinct (pending sp i ?ys @ pending sp (Suc i) ?ys)"
    proof (intro allI impI)
      fix i assume "i < n"
      then have "Suc i < Suc n" by simp
      from Suc.prems(3)[rule_format, OF this] show "distinct (pending sp i ?ys @ pending sp (Suc i) ?ys)"
        by simp
    qed
    have e': "pending sp n ?ys = []" using Suc.prems(4) by simp
    from Suc.IH[OF s1(2) a' d' e', of "evs @ map (\<lambda>x. Hook p x fl) xs"] s1(1)
    show ?thesis by simp
  qed
qed

subsection \<open>A drain of callbacks that leave the queue alone\<close>

lemma walk_visit:
  assumes "\<forall>x\<in>set (c # cs). quiet env p fl x" "path (nexts s p) (Some c) (c # cs) None"
    and "distinct (c # cs)"
  shows "walk env p fl c evs s = visit_all env p fl (c # cs) evs s"
  using assms
proof (induction cs arbitrary: c evs s)
  case Nil
  from Nil.prems(1) obtain s1 where s1:
      "exec env (hook env p c fl) (evs @ [Hook p c fl]) s = Some (Inr (evs @ [Hook p c fl], s1))"
      "same_queue p s s1"
    unfolding quiet_def by (metis list.set_intros(1))
  have "nexts s1 p c = None" using s1(2) Nil.prems(2) by (simp add: same_queue_def)
  then show ?case by (subst walk_unfold) (simp add: s1(1))
next
  case (Cons c' cs)
  from Cons.prems(1) obtain s1 where s1:
      "exec env (hook env p c fl) (evs @ [Hook p c fl]) s = Some (Inr (evs @ [Hook p c fl], s1))"
      "same_queue p s s1"
    unfolding quiet_def by (metis list.set_intros(1))
  let ?s2 = "set_prev p c None (set_next p c None s1)"
  have nx: "nexts s1 p c = Some c'" using s1(2) Cons.prems(2) by (simp add: same_queue_def)
  have "path (nexts s p) (Some c') (c' # cs) None" using Cons.prems(2) by simp
  then have "path (nexts s1 p) (Some c') (c' # cs) None"
    using s1(2) by (simp add: same_queue_def)
  then have p': "path (nexts ?s2 p) (Some c') (c' # cs) None"
    using Cons.prems(3) path_upd_other[of c "c' # cs" "nexts s1 p" None "Some c'" None]
    by (simp add: upd_defs)
  have q': "\<forall>x\<in>set (c' # cs). quiet env p fl x" using Cons.prems(1) by simp
  have d': "distinct (c' # cs)" using Cons.prems(3) by simp
  have "walk env p fl c evs s = walk env p fl c' (evs @ [Hook p c fl]) ?s2"
    by (subst walk_unfold) (simp add: s1(1) nx)
  also have "\<dots> = visit_all env p fl (c' # cs) (evs @ [Hook p c fl]) ?s2"
    by (rule Cons.IH[OF q' p' d'])
  finally show ?case by (simp add: s1(1))
qed

lemma process_visit:
  assumes "holds s p xs" "\<forall>x\<in>set xs. quiet env p fl x"
  shows "\<exists>s'. process env p fl evs s = Some (Inr (evs @ map (\<lambda>x. Hook p x fl) xs, s')) \<and>
           visit_all env p fl xs evs (set_head p None (set_tail p None s)) =
             Some (Inr (evs @ map (\<lambda>x. Hook p x fl) xs, s')) \<and>
           head s' p = None \<and> tail s' p = None \<and> (\<forall>x\<in>set xs. unlinked s' p x)"
proof (cases xs)
  case Nil
  then have e: "head s p = None" "tail s p = None" using assms(1) by (simp_all add: holds_Nil)
  then have "set_head p None (set_tail p None s) = s" by (simp add: upd_defs fun_upd_idem)
  then show ?thesis using Nil e process_empty[of s p env fl evs] by simp
next
  case (Cons c cs)
  let ?s0 = "set_head p None (set_tail p None s)"
  have hd: "head s p = Some c" and pa: "path (nexts s p) (Some c) (c # cs) None"
    and d: "distinct (c # cs)"
    using assms(1) Cons by (auto simp: holds_def)
  have a1: "\<forall>x\<in>set (c # cs). adds_only env p fl x []"
    using assms(2) Cons by (simp add: quiet_adds_only)
  have a2: "holds ?s0 p []" by (simp add: holds_Nil upd_defs)
  have a3: "path (nexts ?s0 p) (Some c) (c # cs) None" using pa by (simp add: upd_defs)
  have cc: "concat (map (\<lambda>_. []) (c # cs)) = ([]::item list)" by simp
  have a4: "distinct ([] @ c # cs @ concat (map (\<lambda>_. []) (c # cs)))"
    unfolding cc using d by simp
  have a5: "\<forall>d\<in>set (concat (map (\<lambda>_. []) (c # cs))). unlinked ?s0 p d"
    unfolding cc by simp
  from walk_adds[of c cs env p fl "\<lambda>_. []", OF a1 a2 a3 a4 a5, of evs]
  obtain s' where s': "walk env p fl c evs ?s0 = Some (Inr (evs @ map (\<lambda>x. Hook p x fl) (c # cs), s'))"
      "holds s' p []" "\<forall>x\<in>set (c # cs). unlinked s' p x"
    unfolding cc by auto
  have e: "head s' p = None" "tail s' p = None" using s'(2) by (simp_all add: holds_Nil)
  have q: "\<forall>x\<in>set (c # cs). quiet env p fl x" using assms(2) Cons by simp
  have v: "visit_all env p fl (c # cs) evs ?s0 =
      Some (Inr (evs @ map (\<lambda>x. Hook p x fl) (c # cs), s'))"
    using walk_visit[OF q a3 d, of evs] s'(1) by simp
  have "process env p fl evs s = Some (Inr (evs @ map (\<lambda>x. Hook p x fl) (c # cs), s'))"
    by (subst process_unfold) (simp add: hd s'(1) process_empty[OF e(1)])
  then show ?thesis using v e s'(3) Cons by blast
qed


subsection \<open>A callback that throws\<close>

lemma throwsD:
  assumes "throws env p fl c e"
  shows "\<exists>s'. exec env (hook env p c fl) evs s = Some (Inl (e, (evs, s'))) \<and> same_queue p s s'"
  using assms unfolding throws_def by blast

lemma walk_throw_adds:
  assumes "\<forall>a\<in>set as. adds_only env p fl a (sp a)" "throws env p fl c e"
    and "holds s p ys"
    and "path (nexts s p) (Some (hd (as @ [c]))) (as @ c # bs) None"
    and "distinct (ys @ (as @ c # bs) @ concat (map sp as))"
    and "\<forall>d\<in>set (concat (map sp as)). unlinked s p d"
  shows "\<exists>s'. walk env p fl (hd (as @ [c])) evs s =
             Some (Inl (e, (evs @ map (\<lambda>x. Hook p x fl) (as @ [c]), s'))) \<and>
           holds s' p (ys @ concat (map sp as)) \<and> (\<forall>a\<in>set as. unlinked s' p a) \<and>
           untouched p (set ys \<union> set as \<union> set (concat (map sp as))) s s'"
  using assms
proof (induction as arbitrary: evs s ys)
  case Nil
  from throwsD[OF Nil.prems(2), of "evs @ [Hook p c fl]" s]
  obtain s1 where s1:
      "exec env (hook env p c fl) (evs @ [Hook p c fl]) s =
         Some (Inl (e, (evs @ [Hook p c fl], s1)))"
      "same_queue p s s1"
    by blast
  have "walk env p fl c evs s = Some (Inl (e, (evs @ [Hook p c fl], s1)))"
    by (subst walk_unfold) (simp add: s1(1))
  then show ?case
    using holds_same_queue[OF s1(2) Nil.prems(3)] untouched_same_queue[OF s1(2)] by simp
next
  case (Cons a as)
  let ?n = "hd (as @ [c])"
  have "adds_only env p fl a (sp a)" "distinct (ys @ sp a)" "a \<notin> set ys \<union> set (sp a)"
    "\<forall>d\<in>set (sp a). unlinked s p d"
    using Cons.prems by auto
  from hook_step[OF this(1) Cons.prems(3) this(2,3,4), of "evs @ [Hook p a fl]"]
  obtain s2 where s2:
    "exec env (hook env p a fl) (evs @ [Hook p a fl]) s = Some (Inr (evs @ [Hook p a fl], s2))"
    "nexts s2 p a = nexts s p a"
    "holds (set_prev p a None (set_next p a None s2)) p (ys @ sp a)"
    "untouched p (set ys \<union> {a} \<union> set (sp a)) s (set_prev p a None (set_next p a None s2))"
    "unlinked (set_prev p a None (set_next p a None s2)) p a"
    by blast
  let ?s3 = "set_prev p a None (set_next p a None s2)"
  let ?evs = "evs @ [Hook p a fl]"
  have pn: "path (nexts s p) (Some ?n) (as @ c # bs) None" and nxa: "nexts s p a = Some ?n"
    using Cons.prems(4) by (cases as; simp)+
  have nx: "nexts s2 p a = Some ?n" using s2(2) nxa by simp
  have w: "walk env p fl (hd ((a # as) @ [c])) evs s = walk env p fl ?n ?evs ?s3"
    by (subst walk_unfold) (simp add: s2(1) nx)
  have a1: "\<forall>x\<in>set as. adds_only env p fl x (sp x)" using Cons.prems(1) by simp
  have dis: "set (as @ c # bs) \<inter> (set ys \<union> {a} \<union> set (sp a)) = {}"
    using Cons.prems(5) by auto
  have a3: "path (nexts ?s3 p) (Some ?n) (as @ c # bs) None"
    using untouched_path[OF s2(4) dis, of "Some ?n" None] pn by blast
  have a4: "distinct ((ys @ sp a) @ (as @ c # bs) @ concat (map sp as))"
    using Cons.prems(5) by auto
  have a5: "\<forall>d\<in>set (concat (map sp as)). unlinked ?s3 p d"
  proof
    fix d assume d: "d \<in> set (concat (map sp as))"
    then have "unlinked s p d" using Cons.prems(6) by simp
    moreover have "d \<notin> set ys \<union> {a} \<union> set (sp a)" using d Cons.prems(5) by auto
    ultimately show "unlinked ?s3 p d" using untouched_unlinked[OF s2(4)] by blast
  qed
  from Cons.IH[OF a1 Cons.prems(2) s2(3) a3 a4 a5, of ?evs]
  obtain s' where s': "walk env p fl ?n ?evs ?s3 =
        Some (Inl (e, (?evs @ map (\<lambda>x. Hook p x fl) (as @ [c]), s')))"
      "holds s' p ((ys @ sp a) @ concat (map sp as))"
      "\<forall>x\<in>set as. unlinked s' p x"
      "untouched p (set (ys @ sp a) \<union> set as \<union> set (concat (map sp as))) ?s3 s'"
    by blast
  have cn: "a \<notin> set (ys @ sp a) \<union> set as \<union> set (concat (map sp as))"
    using Cons.prems(5) by auto
  have uc: "unlinked s' p a" using untouched_unlinked[OF s'(4) cn s2(5)] .
  have f: "untouched p (set ys \<union> set (a # as) \<union> set (concat (map sp (a # as)))) s s'"
    using s2(4) s'(4) by (rule untouched_trans) auto
  show ?case using w s'(1,2,3) uc f by simp
qed

lemma process_rounds_throw:
  assumes "tidy s p xs"
    and "\<forall>i<k. distinct (pending sp i xs @ pending sp (Suc i) xs)"
    and "pending sp k xs = as @ c # bs"
    and "distinct ((as @ c # bs) @ concat (map sp as))"
    and "\<forall>x\<in>set (flushed sp k xs @ as). adds_only env p fl x (sp x)"
    and "throws env p fl c e"
  shows "\<exists>s'. process env p fl evs s =
             Some (Inl (e, (evs @ map (\<lambda>x. Hook p x fl) (flushed sp k xs @ as @ [c]), s'))) \<and>
           holds s' p (concat (map sp as)) \<and> (\<forall>a\<in>set as. unlinked s' p a) \<and>
           path (nexts s' p) (Some c) (c # bs) None"
  using assms(1,2,3,5)
proof (induction k arbitrary: xs s evs)
  case 0
  let ?s0 = "set_head p None (set_tail p None s)"
  have xs: "xs = as @ c # bs" using 0(3) by simp
  have h: "holds s p (as @ c # bs)" using 0(1) xs by (simp add: tidy_def)
  have hd: "head s p = Some (hd (as @ [c]))" using holds_split(3)[OF h] .
  have pa: "path (nexts s p) (Some (hd (as @ [c]))) (as @ c # bs) None"
    using h hd by (simp add: holds_def)
  have a1: "\<forall>a\<in>set as. adds_only env p fl a (sp a)" using 0(4) by simp
  have a3: "holds ?s0 p []" by (simp add: holds_Nil upd_defs)
  have a4: "path (nexts ?s0 p) (Some (hd (as @ [c]))) (as @ c # bs) None"
    using pa by (simp add: upd_defs)
  have a5: "distinct ([] @ (as @ c # bs) @ concat (map sp as))" using assms(4) by simp
  have a6: "\<forall>d\<in>set (concat (map sp as)). unlinked ?s0 p d"
  proof
    fix d assume "d \<in> set (concat (map sp as))"
    then have "d \<notin> set xs" using assms(4) xs by auto
    then have "unlinked s p d" using 0(1) by (simp add: tidy_def)
    then show "unlinked ?s0 p d" by (simp add: unlinked_def upd_defs)
  qed
  from walk_throw_adds[OF a1 assms(6) a3 a4 a5 a6, of evs]
  obtain s' where s': "walk env p fl (hd (as @ [c])) evs ?s0 =
        Some (Inl (e, (evs @ map (\<lambda>x. Hook p x fl) (as @ [c]), s')))"
      "holds s' p ([] @ concat (map sp as))" "\<forall>a\<in>set as. unlinked s' p a"
      "untouched p (set [] \<union> set as \<union> set (concat (map sp as))) ?s0 s'"
    by blast
  have dis: "set (c # bs) \<inter> (set [] \<union> set as \<union> set (concat (map sp as))) = {}"
    using assms(4) by auto
  have "path (nexts ?s0 p) (Some c) (c # bs) None"
    using a4 by (cases as) (auto simp: path_append)
  then have pc: "path (nexts s' p) (Some c) (c # bs) None"
    using untouched_path[OF s'(4) dis, of "Some c" None] by blast
  have "process env p fl evs s =
      Some (Inl (e, (evs @ map (\<lambda>x. Hook p x fl) (as @ [c]), s')))"
    by (subst process_unfold) (simp add: hd s'(1))
  then show ?case using s'(2,3) pc by simp
next
  case (Suc k)
  let ?ys = "concat (map sp xs)"
  have ne: "xs \<noteq> []" using Suc.prems(3) by (auto simp: pending_Nil)
  have d: "distinct (xs @ ?ys)" using Suc.prems(2)[rule_format, of 0] by simp
  have a: "\<forall>x\<in>set xs. adds_only env p fl x (sp x)" using Suc.prems(4) by simp
  from process_round_tidy[OF Suc.prems(1) ne d a, of evs]
  obtain s1 where s1:
      "process env p fl evs s = process env p fl (evs @ map (\<lambda>x. Hook p x fl) xs) s1"
      "tidy s1 p ?ys"
    by blast
  have d': "\<forall>i<k. distinct (pending sp i ?ys @ pending sp (Suc i) ?ys)"
  proof (intro allI impI)
    fix i assume "i < k"
    then have "Suc i < Suc k" by simp
    from Suc.prems(2)[rule_format, OF this]
    show "distinct (pending sp i ?ys @ pending sp (Suc i) ?ys)" by simp
  qed
  have e': "pending sp k ?ys = as @ c # bs" using Suc.prems(3) by simp
  have a': "\<forall>x\<in>set (flushed sp k ?ys @ as). adds_only env p fl x (sp x)"
    using Suc.prems(4) by simp
  from Suc.IH[OF s1(2) d' e' a', of "evs @ map (\<lambda>x. Hook p x fl) xs"] s1(1)
  show ?case by simp
qed

subsection \<open>The batch queue\<close>

lemma flush_all_adds:
  "\<forall>x\<in>set xs. flush_adds env fl x (sp x) \<Longrightarrow>
   \<exists>s'. flush_all env fl xs evs s = Some (Inr (evs @ map (\<lambda>x. Flush x fl) xs, s')) \<and>
        queue s' = queue s @ concat (map sp xs)"
proof (induction xs arbitrary: evs s)
  case Nil
  then show ?case by simp
next
  case (Cons x xs)
  from Cons.prems obtain s1 where s1:
      "exec env (flushBatch env x fl) (evs @ [Flush x fl]) s = Some (Inr (evs @ [Flush x fl], s1))"
      "queue s1 = queue s @ sp x"
    unfolding flush_adds_def by (metis list.set_intros(1))
  from Cons.IH[of "evs @ [Flush x fl]" s1] Cons.prems
  obtain s' where "flush_all env fl xs (evs @ [Flush x fl]) s1 =
      Some (Inr ((evs @ [Flush x fl]) @ map (\<lambda>x. Flush x fl) xs, s'))"
      "queue s' = queue s1 @ concat (map sp xs)"
    by auto
  then show ?case using s1 by simp
qed

lemma flush_all_throw:
  assumes "\<forall>a\<in>set as. flush_adds env fl a (sp a)" "flush_throws env fl c e"
  shows "\<exists>s'. flush_all env fl (as @ c # bs) evs s =
           Some (Inl (e, (evs @ map (\<lambda>x. Flush x fl) (as @ [c]), s'))) \<and>
           queue s' = queue s @ concat (map sp as)"
  using assms(1)
proof (induction as arbitrary: evs s)
  case Nil
  from assms(2) obtain s' where
      "exec env (flushBatch env c fl) (evs @ [Flush c fl]) s =
         Some (Inl (e, (evs @ [Flush c fl], s')))"
      "queue s' = queue s"
    unfolding flush_throws_def by blast
  then show ?case by simp
next
  case (Cons a as)
  from Cons.prems obtain s1 where s1:
      "exec env (flushBatch env a fl) (evs @ [Flush a fl]) s = Some (Inr (evs @ [Flush a fl], s1))"
      "queue s1 = queue s @ sp a"
    unfolding flush_adds_def by (metis list.set_intros(1))
  from Cons.IH[of "evs @ [Flush a fl]" s1] Cons.prems
  obtain s' where "flush_all env fl (as @ c # bs) (evs @ [Flush a fl]) s1 =
      Some (Inl (e, ((evs @ [Flush a fl]) @ map (\<lambda>x. Flush x fl) (as @ [c]), s')))"
      "queue s' = queue s1 @ concat (map sp as)"
    by auto
  then show ?case using s1 by simp
qed



lemma batch_rounds_throw:
  assumes "pending sp k (queue s) = as @ c # bs"
    and "\<forall>x\<in>set (flushed sp k (queue s) @ as). flush_adds env fl x (sp x)"
    and "flush_throws env fl c e"
  shows "\<exists>s'. batch_rounds env fl evs s =
             Some (Inl (e, (evs @ map (\<lambda>x. Flush x fl) (flushed sp k (queue s) @ as @ [c]), s'))) \<and>
           queue s' = concat (map sp as)"
  using assms(1,2)
proof (induction k arbitrary: evs s)
  case 0
  have q: "queue s = as @ c # bs" using 0(1) by simp
  have "\<forall>a\<in>set as. flush_adds env fl a (sp a)" using 0(2) by simp
  from flush_all_throw[OF this assms(3), of bs evs "s\<lparr>queue := []\<rparr>"]
  obtain s' where "flush_all env fl (as @ c # bs) evs (s\<lparr>queue := []\<rparr>) =
      Some (Inl (e, (evs @ map (\<lambda>x. Flush x fl) (as @ [c]), s')))"
      "queue s' = concat (map sp as)"
    by auto
  then show ?case by (subst batch_rounds_unfold) (simp add: q)
next
  case (Suc k)
  have ne: "queue s \<noteq> []" using Suc.prems(1) by (auto simp: pending_Nil)
  have "\<forall>x\<in>set (queue s). flush_adds env fl x (sp x)" using Suc.prems(2) by simp
  from flush_all_adds[OF this, of evs "s\<lparr>queue := []\<rparr>"]
  obtain s1 where s1: "flush_all env fl (queue s) evs (s\<lparr>queue := []\<rparr>) =
      Some (Inr (evs @ map (\<lambda>x. Flush x fl) (queue s), s1))"
      "queue s1 = concat (map sp (queue s))"
    by auto
  have r: "batch_rounds env fl evs s =
      batch_rounds env fl (evs @ map (\<lambda>x. Flush x fl) (queue s)) s1"
    by (subst batch_rounds_unfold) (simp add: ne s1(1))
  have "pending sp k (queue s1) = as @ c # bs"
    "\<forall>x\<in>set (flushed sp k (queue s1) @ as). flush_adds env fl x (sp x)"
    using Suc.prems s1(2) by simp_all
  from Suc.IH[OF this, of "evs @ map (\<lambda>x. Flush x fl) (queue s)"]
  show ?case using r s1(2) by auto
qed

subsection \<open>A drain returns only from an empty queue\<close>

lemma run_returns_empty:
  assumes "run env k evs s = Some r"
  shows "case k of
           Step c \<Rightarrow> (case c of
                        Process p fl \<Rightarrow> (\<forall>y. r = Inr y \<longrightarrow> head (snd y) p = None)
                      | BatchProcess fl \<Rightarrow> (\<forall>y. r = Inr y \<longrightarrow> queue (snd y) = [])
                      | _ \<Rightarrow> True)
         | Rounds fl \<Rightarrow> (\<forall>y. r = Inr y \<longrightarrow> queue (snd y) = [])
         | _ \<Rightarrow> True"
proof (rule run.raw_induct[OF _ assms], goal_cases)
  case (1 f env k evs s r)
  show ?case
  proof (cases k)
    case (Rounds fl)
    show ?thesis
    proof (cases "length (queue s) > 0")
      case False
      with 1(2) Rounds show ?thesis by auto
    next
      case True
      show ?thesis
      proof (cases "f env (FlushAll fl (queue s)) evs (s\<lparr>queue := []\<rparr>)")
        case None
        with 1(2) Rounds True show ?thesis by simp
      next
        case w: (Some r1)
        show ?thesis
        proof (cases r1)
          case (Inl x)
          with 1(2) Rounds True w show ?thesis by auto
        next
          case (Inr z)
          with 1(2) Rounds True w have "f env (Rounds fl) (fst z) (snd z) = Some r" by simp
          from 1(1)[OF this] Rounds show ?thesis by simp
        qed
      qed
    qed
  next
    case (Step c)
    show ?thesis
    proof (cases c)
      case (Process p fl)
      show ?thesis
      proof (cases "head s p")
        case None
        with 1(2) Step Process show ?thesis by auto
      next
        case (Some cur)
        show ?thesis
        proof (cases "f env (Walk p fl cur) evs (set_head p None (set_tail p None s))")
          case None
          with 1(2) Step Process Some show ?thesis by simp
        next
          case w: (Some r1)
          show ?thesis
          proof (cases r1)
            case (Inl x)
            with 1(2) Step Process Some w show ?thesis by auto
          next
            case (Inr z)
            with 1(2) Step Process Some w
            have "f env (Step (Process p fl)) (fst z) (snd z) = Some r" by simp
            from 1(1)[OF this] Step Process show ?thesis by simp
          qed
        qed
      qed
    next
      case (BatchProcess fl)
      with 1(2) Step
      have "f env (Rounds (fl OR LifecycleFlags_fromBatch env)) evs s = Some r" by simp
      from 1(1)[OF this] Step BatchProcess show ?thesis by simp
    qed (simp_all add: Step)
  qed simp_all
qed

lemma process_returns_empty:
  "process env p fl evs s = Some (Inr (evs', s')) \<Longrightarrow> head s' p = None"
  using run_returns_empty[of env "Step (Process p fl)" evs s "Inr (evs', s')"]
  by (simp add: process_def)


subsection \<open>The depth of nested \<^verbatim>\<open>begin\<close> calls\<close>

lemma tidy_depth [simp]: "tidy (s\<lparr>depth := d\<rparr>) p xs = tidy s p xs"
  by (simp add: tidy_def holds_def unlinked_def)

lemma depth_begins: "depth ((begin_auto a ^^ n) s) a = depth s a + int n"
  by (induction n) (simp_all add: begin_auto_def)

lemma batch_depth_begins: "batch_depth ((batch_begin ^^ n) s) = batch_depth s + int n"
  by (induction n) (simp_all add: batch_begin_def)

lemma end_after_begin:
  "depth t a \<noteq> 0 \<Longrightarrow> end_auto env a fo evs (begin_auto a t) = Some (Inr (evs, t))"
  by (simp add: end_auto_unfold begin_auto_def fun_upd_idem)

lemma batch_end_after_begin:
  "batch_depth t \<noteq> 0 \<Longrightarrow> batch_end env fo evs (batch_begin t) = Some (Inr (evs, t))"
  by (simp add: batch_end_unfold batch_begin_def)

section \<open>The claims\<close>

text \<open>
  C1, as the specification states it, fails: an item added to a phase queue by a callback
  during \<^verbatim>\<open>process\<close> is visited by that same \<^verbatim>\<open>process\<close> call. On a new lifecycle,
  after \<^verbatim>\<open>add(1)\<close> on the bind queue, with the \<^verbatim>\<open>afterBind\<close> of controller 1 calling
  \<^verbatim>\<open>add(4)\<close> on the same queue, one \<^verbatim>\<open>process(5)\<close> returns having invoked the callback
  of 1 and then that of 4, and leaves the queue empty.
\<close>

theorem reentrant_add_visited_in_same_process:
  "add (Auto Bound) 1 Lifecycle_new =
     Inr (set_tail (Auto Bound) (Some 1) (set_head (Auto Bound) (Some 1) Lifecycle_new)) \<and>
   process reentrant (Auto Bound) 5 []
       (set_tail (Auto Bound) (Some 1) (set_head (Auto Bound) (Some 1) Lifecycle_new)) =
     Some (Inr ([Hook (Auto Bound) 1 5, Hook (Auto Bound) 4 5], Lifecycle_new))"
  by (simp add: process_unfold walk_unfold reentrant_def add_def Lifecycle_new_def upd_defs
      fun_upd_idem)

text \<open>
  C1, amended. A phase queue (auto or manual) holds the items \<open>xs\<close> and nothing else is
  linked; every callback the drain comes to invoke does nothing to the queue but \<^verbatim>\<open>add\<close>
  items to it (the callback of \<open>x\<close> adds the items \<open>sp x\<close>) and starts no drain itself,
  and the items added during a round are new to the queue and not among those the round
  visits. Then a single \<^verbatim>\<open>process\<close> visits the items round by round: first the chain
  \<open>xs\<close> it took off the queue, in order, during which no added item is visited; then, in a
  further round of its outer loop, the items added during the first round, in the order they
  were added; then those added during the second round; and so on for as many rounds as it
  takes (\<open>n\<close> here) until a round adds nothing. It returns with the queue empty, so no
  later \<^verbatim>\<open>begin\<close>/\<^verbatim>\<open>end\<close> cycle or \<^verbatim>\<open>process\<close> call is needed for the added items.

  Whatever the callbacks do, \<^verbatim>\<open>process\<close> returns only with \<open>head\<close> undefined.

  The order is another when a callback starts a drain itself. With the bind queue holding
  the controllers 1 and 2, and the \<^verbatim>\<open>afterBind\<close> of 1 adding controller 4 inside a
  \<^verbatim>\<open>begin\<close>/\<^verbatim>\<open>end\<close> pair of its own, that \<^verbatim>\<open>end\<close> finds the depth at 1 and drains:
  \<^verbatim>\<open>process(5)\<close> invokes the callback of 1, then that of 4 (with the flags
  \<^verbatim>\<open>LifecycleFlags.none\<close> of the inner \<^verbatim>\<open>end\<close>) before the callback of 1 has returned,
  and only then that of 2.
\<close>

theorem reentrant_adds_drained_in_further_rounds:
  assumes "tidy s p xs"
    and "\<forall>x\<in>set (flushed sp n xs). adds_only env p fl x (sp x)"
    and "\<forall>i<n. distinct (pending sp i xs @ pending sp (Suc i) xs)"
    and "pending sp n xs = []"
  shows "(\<exists>s'. process env p fl evs s =
             Some (Inr (evs @ map (\<lambda>x. Hook p x fl) (flushed sp n xs), s')) \<and>
           head s' p = None \<and> tail s' p = None) \<and>
         (\<forall>env' evs' s'. process env' p fl evs s = Some (Inr (evs', s')) \<longrightarrow>
            head s' p = None) \<and>
         (case adds (Auto Bound) [1, 2] Lifecycle_new of
            Inl x \<Rightarrow> False
          | Inr s0 \<Rightarrow>
              process inlining (Auto Bound) 5 [] s0 =
                Some (Inr ([Hook (Auto Bound) 1 5, Hook (Auto Bound) 4 0,
                            Hook (Auto Bound) 2 5], Lifecycle_new)))"
proof -
  from process_rounds[OF assms, of evs]
  obtain s' where s': "process env p fl evs s =
        Some (Inr (evs @ map (\<lambda>x. Hook p x fl) (flushed sp n xs), s'))" "tidy s' p []"
    by blast
  have 1: "\<exists>s'. process env p fl evs s =
             Some (Inr (evs @ map (\<lambda>x. Hook p x fl) (flushed sp n xs), s')) \<and>
           head s' p = None \<and> tail s' p = None"
    using s'(1) tidy_Nil[OF s'(2)] by blast
  have 2: "\<forall>env' evs' s'. process env' p fl evs s = Some (Inr (evs', s')) \<longrightarrow> head s' p = None"
    using process_returns_empty by blast
  have 3: "(case adds (Auto Bound) [1, 2] Lifecycle_new of
            Inl x \<Rightarrow> False
          | Inr s0 \<Rightarrow>
              process inlining (Auto Bound) 5 [] s0 =
                Some (Inr ([Hook (Auto Bound) 1 5, Hook (Auto Bound) 4 0,
                            Hook (Auto Bound) 2 5], Lifecycle_new)))"
    by (simp add: process_unfold walk_unfold end_auto_unfold inlining_def add_def begin_auto_def
        Lifecycle_new_def upd_defs fun_upd_idem)
  show ?thesis using 1 2 3 by blast
qed

theorem reentrant_adds_drained_in_further_rounds_witness:
  "\<exists>s. adds (Auto Bound) [1, 2] Lifecycle_new = Inr s \<and> tidy s (Auto Bound) [1, 2] \<and>
     adds_only cascade (Auto Bound) 5 1 [4] \<and> adds_only cascade (Auto Bound) 5 2 [] \<and>
     adds_only cascade (Auto Bound) 5 4 [5] \<and> adds_only cascade (Auto Bound) 5 5 [] \<and>
     distinct [1, 2, 4 :: item] \<and> distinct [4, 5 :: item] \<and>
     (\<exists>s'. process cascade (Auto Bound) 5 [] s =
        Some (Inr ([Hook (Auto Bound) 1 5, Hook (Auto Bound) 2 5, Hook (Auto Bound) 4 5,
                    Hook (Auto Bound) 5 5], s')) \<and>
        head s' (Auto Bound) = None \<and> tail s' (Auto Bound) = None)"
proof -
  let ?sp = "\<lambda>c::item. if c = 1 then [4::item] else if c = 4 then [5] else []"
  from adds_tidy[OF tidy_new, of "[1, 2]" "Auto Bound"]
  obtain s where s: "adds (Auto Bound) [1, 2] Lifecycle_new = Inr s" "tidy s (Auto Bound) [1, 2]"
    by auto
  have a: "adds_only cascade (Auto Bound) 5 1 [4]" "adds_only cascade (Auto Bound) 5 2 []"
    "adds_only cascade (Auto Bound) 5 4 [5]" "adds_only cascade (Auto Bound) 5 5 []"
    by (simp_all add: adds_only_def cascade_def same_queue_def split: sum.split)
  have f: "flushed ?sp 3 [1, 2] = [1, 2, 4, 5]" by (simp add: numeral_3_eq_3)
  have h2: "\<forall>x\<in>set (flushed ?sp 3 [1, 2]). adds_only cascade (Auto Bound) 5 x (?sp x)"
    unfolding f using a by simp
  have h3: "\<forall>i<3. distinct (pending ?sp i [1, 2] @ pending ?sp (Suc i) [1, 2])"
  proof (intro allI impI)
    fix i :: nat assume "i < 3"
    then have "i = 0 \<or> i = 1 \<or> i = 2" by arith
    then show "distinct (pending ?sp i [1, 2] @ pending ?sp (Suc i) [1, 2])"
      by (auto simp: numeral_2_eq_2)
  qed
  have h4: "pending ?sp 3 [1, 2] = []" by (simp add: numeral_3_eq_3)
  from reentrant_adds_drained_in_further_rounds[OF s(2) h2 h3 h4, of "[]"] s a
  show ?thesis unfolding f by auto
qed

text \<open>
  C2. The invariant "\<open>head\<close> is undefined iff the list is empty iff \<open>tail\<close> is
  undefined" does not survive \<^verbatim>\<open>remove\<close> of an endpoint. After \<^verbatim>\<open>add(1); add(2)\<close> on
  a new bind queue, which then holds the two items, \<^verbatim>\<open>remove(2)\<close> leaves \<open>head\<close> at
  item 1 and \<open>tail\<close> undefined, and \<^verbatim>\<open>remove(1)\<close> leaves \<open>head\<close> undefined and
  \<open>tail\<close> at item 2: in neither state do \<open>head\<close> and \<open>tail\<close> delimit the one item
  that remains.
\<close>

theorem remove_endpoint_breaks_invariant:
  "(case adds (Auto Bound) [1, 2] Lifecycle_new of
      Inl x \<Rightarrow> False
    | Inr s \<Rightarrow> holds s (Auto Bound) [1, 2] \<and>
               head (remove (Auto Bound) 2 s) (Auto Bound) = Some 1 \<and>
               tail (remove (Auto Bound) 2 s) (Auto Bound) = None \<and>
               \<not> holds (remove (Auto Bound) 2 s) (Auto Bound) [1] \<and>
               head (remove (Auto Bound) 1 s) (Auto Bound) = None \<and>
               tail (remove (Auto Bound) 1 s) (Auto Bound) = Some 2 \<and>
               \<not> holds (remove (Auto Bound) 1 s) (Auto Bound) [2])"
  by (simp add: add_def remove_def Lifecycle_new_def Let_def upd_defs holds_def)

text \<open>
  C3. A phase queue holds at least two items. \<^verbatim>\<open>remove\<close> of the last one reads the
  item's link fields after it has cleared them, so it leaves \<open>tail\<close> undefined while
  \<open>head\<close> is still the first item; the next \<^verbatim>\<open>add\<close>, of any item, takes the branch for
  a non-empty queue and throws a \<^verbatim>\<open>TypeError\<close> on the assignment through the undefined
  \<open>tail\<close>. \<^verbatim>\<open>remove\<close> of the first one leaves \<open>head\<close> undefined while \<open>tail\<close> is still
  the last item; the next \<^verbatim>\<open>process\<close> returns at once, in the same state, having invoked
  no callback.
\<close>

theorem remove_endpoint_breaks_queue:
  assumes "holds s p xs" and "2 \<le> length xs"
  shows "tail (remove p (last xs) s) p = None \<and> head (remove p (last xs) s) p = Some (hd xs) \<and>
         (\<exists>s'. add p y (remove p (last xs) s) = Inl (TypeError, s')) \<and>
         head (remove p (hd xs) s) p = None \<and> tail (remove p (hd xs) s) p = Some (last xs) \<and>
         process env p fl evs (remove p (hd xs) s) = Some (Inr (evs, remove p (hd xs) s))"
proof -
  obtain a bs where xs: "xs = a # bs" "bs \<noteq> []"
    using assms(2) by (cases xs) (auto simp: Suc_le_eq)
  have xs': "xs = butlast xs @ last xs # []" "butlast xs \<noteq> []" using xs by auto
  have h1: "holds s p (butlast xs @ last xs # [])" using assms(1) xs'(1) by simp
  have t: "tail (remove p (last xs) s) p = None"
    using remove_later(2)[OF h1 xs'(2)] by simp
  have h: "head (remove p (last xs) s) p = Some (hd xs)"
    using remove_later(1)[OF h1 xs'(2)] xs by simp
  have a: "\<exists>s'. add p y (remove p (last xs) s) = Inl (TypeError, s')"
    using t h by (simp add: add_def Let_def upd_defs)
  have h0: "holds s p (a # bs)" using assms(1) xs by simp
  have "head (remove p (hd xs) s) p = None" "tail (remove p (hd xs) s) p = Some (last xs)"
    using remove_first[OF h0] xs by simp_all
  then show ?thesis using t h a process_empty[of "remove p (hd xs) s" p env fl evs] by simp
qed

theorem remove_endpoint_breaks_queue_witness:
  "\<exists>s. adds Mount [1, 2, 3] Lifecycle_new = Inr s \<and> holds s Mount [1, 2, 3] \<and>
     2 \<le> length [1, 2, 3 :: item] \<and>
     tail (remove Mount 3 s) Mount = None \<and> head (remove Mount 3 s) Mount = Some 1 \<and>
     (\<exists>s'. add Mount 4 (remove Mount 3 s) = Inl (TypeError, s')) \<and>
     head (remove Mount 1 s) Mount = None \<and> tail (remove Mount 1 s) Mount = Some 3 \<and>
     process silent Mount 5 [] (remove Mount 1 s) = Some (Inr ([], remove Mount 1 s))"
proof -
  have "holds Lifecycle_new Mount []" by (simp add: holds_Nil Lifecycle_new_def)
  from adds_holds[OF this, of "[1, 2, 3]"]
  obtain s where s: "adds Mount [1, 2, 3] Lifecycle_new = Inr s" "holds s Mount [1, 2, 3]"
    by (auto simp: unlinked_def Lifecycle_new_def)
  have l: "2 \<le> length [1, 2, 3 :: item]" by simp
  from remove_endpoint_breaks_queue[OF s(2) l, of 4 silent 5 "[]"] s show ?thesis by auto
qed

text \<open>
  C4, as the specification states it, fails on the error path: \<^verbatim>\<open>inline\<close> has no
  \<^verbatim>\<open>try\<close>/\<^verbatim>\<open>finally\<close>. On a new lifecycle, where every depth is 0, \<^verbatim>\<open>inline\<close> of a
  closure that throws lets the error out and leaves the state that \<^verbatim>\<open>begin\<close> made:
  the depth is 1, \<^verbatim>\<open>end\<close> has not run. The same holds for the batch queue.
\<close>

theorem inline_throw_skips_end:
  "inline silent Bound thrower None [] Lifecycle_new =
     Some (Inl (Thrown 7, ([], begin_auto Bound Lifecycle_new))) \<and>
   depth Lifecycle_new Bound = 0 \<and> depth (begin_auto Bound Lifecycle_new) Bound = 1 \<and>
   batch_inline silent thrower None [] Lifecycle_new =
     Some (Inl (Thrown 7, ([], batch_begin Lifecycle_new))) \<and>
   batch_depth Lifecycle_new = 0 \<and> batch_depth (batch_begin Lifecycle_new) = 1"
  by (simp add: inline_unfold batch_inline_unfold thrower_def begin_auto_def batch_begin_def
      Lifecycle_new_def)

text \<open>
  C4, amended. For every auto queue, the batch queue included, \<^verbatim>\<open>inline(fn, flags)\<close> is
  \<^verbatim>\<open>begin(); fn(); end(flags)\<close> with nothing guarding \<^verbatim>\<open>fn\<close>. \<^verbatim>\<open>begin\<close> increments the
  depth by one. When \<^verbatim>\<open>fn\<close> returns, \<^verbatim>\<open>inline\<close> is \<^verbatim>\<open>end(flags)\<close> run in the state
  \<^verbatim>\<open>fn\<close> left, and that \<^verbatim>\<open>end\<close> decrements the depth by one, exactly once: when the
  depth it finds is not 1 it returns the state with the depth one less and nothing else
  changed, no callback invoked; when the depth it finds is 1 it sets the depth to 0 and
  then runs the drain (\<open>settle\<close>: the queue's \<^verbatim>\<open>process\<close>, after the mount or unmount
  queue's in the attach and detach queues; \<^verbatim>\<open>process\<close> with the marked flags in the batch
  queue). When \<^verbatim>\<open>fn\<close> throws, \<^verbatim>\<open>inline\<close> throws the same error in the state \<^verbatim>\<open>fn\<close>
  left: \<^verbatim>\<open>end\<close> does not run and the depth is not decremented.
\<close>

theorem inline_begin_fn_end:
  "depth (begin_auto a s) a = depth s a + 1 \<and>
   (exec env fn evs (begin_auto a s) = Some (Inr (evs1, s1)) \<longrightarrow>
      inline env a fn fo evs s = end_auto env a fo evs1 s1 \<and>
      end_auto env a fo evs1 s1 =
        (if depth s1 a = 1
         then exec env (settle a (case fo of None \<Rightarrow> LifecycleFlags_none env | Some f \<Rightarrow> f))
                evs1 (s1\<lparr>depth := (depth s1)(a := 0)\<rparr>)
         else Some (Inr (evs1, s1\<lparr>depth := (depth s1)(a := depth s1 a - 1)\<rparr>)))) \<and>
   (exec env fn evs (begin_auto a s) = Some (Inl (e, (evs1, s1))) \<longrightarrow>
      inline env a fn fo evs s = Some (Inl (e, (evs1, s1)))) \<and>
   batch_depth (batch_begin s) = batch_depth s + 1 \<and>
   (exec env fn evs (batch_begin s) = Some (Inr (evs1, s1)) \<longrightarrow>
      batch_inline env fn fo evs s = batch_end env fo evs1 s1 \<and>
      batch_end env fo evs1 s1 =
        (if batch_depth s1 = 1
         then batch_process env (case fo of None \<Rightarrow> LifecycleFlags_none env | Some f \<Rightarrow> f)
                evs1 (s1\<lparr>batch_depth := 0\<rparr>)
         else Some (Inr (evs1, s1\<lparr>batch_depth := batch_depth s1 - 1\<rparr>)))) \<and>
   (exec env fn evs (batch_begin s) = Some (Inl (e, (evs1, s1))) \<longrightarrow>
      batch_inline env fn fo evs s = Some (Inl (e, (evs1, s1))))"
  by (simp add: inline_unfold batch_inline_unfold end_auto_unfold batch_end_unfold
      batch_process_unfold begin_auto_def batch_begin_def)

theorem inline_begin_fn_end_witness:
  "\<exists>s. adds (Auto Bound) [1, 2] Lifecycle_new = Inr s \<and>
     depth s Bound = 0 \<and> depth (begin_auto Bound s) Bound = 1 \<and>
     exec tracing noop [] (begin_auto Bound s) = Some (Inr ([], begin_auto Bound s)) \<and>
     inline tracing Bound noop (Some 5) [] s =
       end_auto tracing Bound (Some 5) [] (begin_auto Bound s) \<and>
     inline tracing Bound noop (Some 5) [] s =
       Some (Inr ([Hook (Auto Bound) 1 5, Hook (Auto Bound) 2 5],
                  Lifecycle_new\<lparr>queue := [6, 7]\<rparr>)) \<and>
     depth (begin_auto Bound (begin_auto Bound s)) Bound = 2 \<and>
     exec tracing noop [] (begin_auto Bound (begin_auto Bound s)) =
       Some (Inr ([], begin_auto Bound (begin_auto Bound s))) \<and>
     inline tracing Bound noop (Some 5) [] (begin_auto Bound s) =
       Some (Inr ([], begin_auto Bound s)) \<and>
     exec tracing thrower [] (begin_auto Bound s) =
       Some (Inl (Thrown 7, ([], begin_auto Bound s))) \<and>
     inline tracing Bound thrower (Some 5) [] s =
       Some (Inl (Thrown 7, ([], begin_auto Bound s))) \<and>
     batch_depth (batch_begin (batch_add 1 Lifecycle_new)) = 1 \<and>
     exec tracing noop [] (batch_begin (batch_add 1 Lifecycle_new)) =
       Some (Inr ([], batch_begin (batch_add 1 Lifecycle_new))) \<and>
     batch_inline tracing noop (Some 5) [] (batch_add 1 Lifecycle_new) =
       Some (Inr ([Flush 1 13], Lifecycle_new)) \<and>
     exec tracing thrower [] (batch_begin (batch_add 1 Lifecycle_new)) =
       Some (Inl (Thrown 7, ([], batch_begin (batch_add 1 Lifecycle_new)))) \<and>
     batch_inline tracing thrower (Some 5) [] (batch_add 1 Lifecycle_new) =
       Some (Inl (Thrown 7, ([], batch_begin (batch_add 1 Lifecycle_new))))"
proof -
  have "\<exists>s. adds (Auto Bound) [1, 2] Lifecycle_new = Inr s \<and>
     depth s Bound = 0 \<and> depth (begin_auto Bound s) Bound = 1 \<and>
     exec tracing noop [] (begin_auto Bound s) = Some (Inr ([], begin_auto Bound s)) \<and>
     end_auto tracing Bound (Some 5) [] (begin_auto Bound s) =
       Some (Inr ([Hook (Auto Bound) 1 5, Hook (Auto Bound) 2 5],
                  Lifecycle_new\<lparr>queue := [6, 7]\<rparr>)) \<and>
     depth (begin_auto Bound (begin_auto Bound s)) Bound = 2 \<and>
     exec tracing noop [] (begin_auto Bound (begin_auto Bound s)) =
       Some (Inr ([], begin_auto Bound (begin_auto Bound s))) \<and>
     (begin_auto Bound (begin_auto Bound s))
       \<lparr>depth := (depth (begin_auto Bound (begin_auto Bound s)))
          (Bound := depth (begin_auto Bound (begin_auto Bound s)) Bound - 1)\<rparr> =
       begin_auto Bound s \<and>
     exec tracing thrower [] (begin_auto Bound s) =
       Some (Inl (Thrown 7, ([], begin_auto Bound s)))"
    by (simp add: process_unfold walk_unfold end_auto_unfold tracing_def noop_def thrower_def
        add_def batch_add_def begin_auto_def Lifecycle_new_def upd_defs fun_upd_idem)
  then obtain s where s: "adds (Auto Bound) [1, 2] Lifecycle_new = Inr s"
     "depth s Bound = 0" "depth (begin_auto Bound s) Bound = 1"
     "exec tracing noop [] (begin_auto Bound s) = Some (Inr ([], begin_auto Bound s))"
     "end_auto tracing Bound (Some 5) [] (begin_auto Bound s) =
       Some (Inr ([Hook (Auto Bound) 1 5, Hook (Auto Bound) 2 5],
                  Lifecycle_new\<lparr>queue := [6, 7]\<rparr>))"
     "depth (begin_auto Bound (begin_auto Bound s)) Bound = 2"
     "exec tracing noop [] (begin_auto Bound (begin_auto Bound s)) =
       Some (Inr ([], begin_auto Bound (begin_auto Bound s)))"
     "(begin_auto Bound (begin_auto Bound s))
       \<lparr>depth := (depth (begin_auto Bound (begin_auto Bound s)))
          (Bound := depth (begin_auto Bound (begin_auto Bound s)) Bound - 1)\<rparr> =
       begin_auto Bound s"
     "exec tracing thrower [] (begin_auto Bound s) =
       Some (Inl (Thrown 7, ([], begin_auto Bound s)))"
    by blast
  have b: "batch_depth (batch_begin (batch_add 1 Lifecycle_new)) = 1"
    "exec tracing noop [] (batch_begin (batch_add 1 Lifecycle_new)) =
       Some (Inr ([], batch_begin (batch_add 1 Lifecycle_new)))"
    "batch_process tracing 5 [] ((batch_begin (batch_add 1 Lifecycle_new))\<lparr>batch_depth := 0\<rparr>) =
       Some (Inr ([Flush 1 13], Lifecycle_new))"
    "exec tracing thrower [] (batch_begin (batch_add 1 Lifecycle_new)) =
       Some (Inl (Thrown 7, ([], batch_begin (batch_add 1 Lifecycle_new))))"
    by (simp_all add: batch_process_unfold batch_rounds_unfold tracing_def noop_def thrower_def
        batch_add_def batch_begin_def Lifecycle_new_def)
  have i1: "inline tracing Bound noop (Some 5) [] s =
      end_auto tracing Bound (Some 5) [] (begin_auto Bound s)"
    using inline_begin_fn_end[of Bound s tracing noop "[]" "[]" "begin_auto Bound s" "Some 5"]
      s(4) by blast
  have i2: "inline tracing Bound noop (Some 5) [] (begin_auto Bound s) =
      Some (Inr ([], begin_auto Bound s))"
    using inline_begin_fn_end[of Bound "begin_auto Bound s" tracing noop "[]" "[]"
        "begin_auto Bound (begin_auto Bound s)" "Some 5"] s(6,7,8)
    by simp
  have i3: "inline tracing Bound thrower (Some 5) [] s =
      Some (Inl (Thrown 7, ([], begin_auto Bound s)))"
    using inline_begin_fn_end[of Bound s tracing thrower "[]" "[]" "begin_auto Bound s" "Some 5"
        "Thrown 7"] s(9)
    by blast
  have i4: "batch_inline tracing noop (Some 5) [] (batch_add 1 Lifecycle_new) =
      Some (Inr ([Flush 1 13], Lifecycle_new))"
    using inline_begin_fn_end[of Bound "batch_add 1 Lifecycle_new" tracing noop "[]" "[]"
        "batch_begin (batch_add 1 Lifecycle_new)" "Some 5"] b(1,2,3)
    by simp
  have i5: "batch_inline tracing thrower (Some 5) [] (batch_add 1 Lifecycle_new) =
      Some (Inl (Thrown 7, ([], batch_begin (batch_add 1 Lifecycle_new))))"
    using inline_begin_fn_end[of Bound "batch_add 1 Lifecycle_new" tracing thrower "[]" "[]"
        "batch_begin (batch_add 1 Lifecycle_new)" "Some 5" "Thrown 7"] b(4)
    by blast
  show ?thesis
    using s(1,2,3,4,5,6,7,9) b(1,2,4) i1 i2 i3 i4 i5 by auto
qed




text \<open>
  C6. A phase queue holds the items \<open>ys\<close> (none, on a new or a drained queue), and the
  items \<open>xs\<close> are added to it, each once, each new to the queue and with its link fields
  undefined, with no \<^verbatim>\<open>process\<close> and no \<^verbatim>\<open>remove\<close> in between; the callbacks return
  without re-entering the queue and start no drain. Then every \<^verbatim>\<open>add\<close> succeeds, and one
  \<^verbatim>\<open>process\<close> returns after invoking the callback of each item exactly once, in the order
  of the \<^verbatim>\<open>add\<close> calls (first in, first out), with the \<open>flags\<close> it was given: it returns
  the very state that running the callbacks of the items one after the other, in that
  order and with those flags, each followed by the clearing of its item's link fields,
  makes of the state with \<open>head\<close> and \<open>tail\<close> cleared (\<open>visit_all\<close>). It leaves
  \<open>head\<close> and \<open>tail\<close> undefined and both link fields of every processed item undefined.
\<close>

theorem adds_then_process_fifo:
  assumes "holds s p ys" and "distinct (ys @ xs)" and "\<forall>x\<in>set xs. unlinked s p x"
    and "\<forall>x\<in>set (ys @ xs). quiet env p fl x"
  shows "\<exists>s1 s2. adds p xs s = Inr s1 \<and>
           process env p fl evs s1 = Some (Inr (evs @ map (\<lambda>x. Hook p x fl) (ys @ xs), s2)) \<and>
           visit_all env p fl (ys @ xs) evs (set_head p None (set_tail p None s1)) =
             Some (Inr (evs @ map (\<lambda>x. Hook p x fl) (ys @ xs), s2)) \<and>
           head s2 p = None \<and> tail s2 p = None \<and> (\<forall>x\<in>set (ys @ xs). unlinked s2 p x)"
proof -
  from adds_holds[OF assms(1,2,3)]
  obtain s1 where s1: "adds p xs s = Inr s1" "holds s1 p (ys @ xs)"
    by auto
  from process_visit[OF s1(2) assms(4), of evs] s1(1) show ?thesis by blast
qed

theorem adds_then_process_fifo_witness:
  "holds Lifecycle_new (Auto Bound) [] \<and> distinct ([] @ [1, 2, 3 :: item]) \<and>
   unlinked Lifecycle_new (Auto Bound) 1 \<and> unlinked Lifecycle_new (Auto Bound) 2 \<and>
   unlinked Lifecycle_new (Auto Bound) 3 \<and>
   quiet tracing (Auto Bound) 5 1 \<and> quiet tracing (Auto Bound) 5 2 \<and>
   quiet tracing (Auto Bound) 5 3 \<and>
   (\<exists>s1 s2. adds (Auto Bound) [1, 2, 3] Lifecycle_new = Inr s1 \<and>
      process tracing (Auto Bound) 5 [] s1 =
        Some (Inr ([Hook (Auto Bound) 1 5, Hook (Auto Bound) 2 5, Hook (Auto Bound) 3 5], s2)) \<and>
      head s2 (Auto Bound) = None \<and> tail s2 (Auto Bound) = None \<and>
      unlinked s2 (Auto Bound) 1 \<and> unlinked s2 (Auto Bound) 2 \<and> unlinked s2 (Auto Bound) 3 \<and>
      queue s2 = [6, 7, 8])"
proof -
  have h: "holds Lifecycle_new (Auto Bound) []" "distinct ([] @ [1, 2, 3 :: item])"
    "\<forall>x\<in>set [1, 2, 3]. unlinked Lifecycle_new (Auto Bound) x"
    "\<forall>x\<in>set ([] @ [1, 2, 3]). quiet tracing (Auto Bound) 5 x"
    by (simp_all add: holds_Nil Lifecycle_new_def unlinked_def quiet_def tracing_def
        same_queue_def batch_add_def)
  from adds_then_process_fifo[OF h, of "[]"]
  obtain s1 s2 where s: "adds (Auto Bound) [1, 2, 3] Lifecycle_new = Inr s1"
      "process tracing (Auto Bound) 5 [] s1 =
         Some (Inr ([] @ map (\<lambda>x. Hook (Auto Bound) x 5) ([] @ [1, 2, 3]), s2))"
      "visit_all tracing (Auto Bound) 5 ([] @ [1, 2, 3]) []
           (set_head (Auto Bound) None (set_tail (Auto Bound) None s1)) =
         Some (Inr ([] @ map (\<lambda>x. Hook (Auto Bound) x 5) ([] @ [1, 2, 3]), s2))"
      "head s2 (Auto Bound) = None" "tail s2 (Auto Bound) = None"
      "\<forall>x\<in>set ([] @ [1, 2, 3]). unlinked s2 (Auto Bound) x"
    by blast
  have "\<exists>S. adds (Auto Bound) [1, 2, 3] Lifecycle_new = Inr S \<and>
      visit_all tracing (Auto Bound) 5 [1, 2, 3] []
           (set_head (Auto Bound) None (set_tail (Auto Bound) None S)) =
        Some (Inr ([Hook (Auto Bound) 1 5, Hook (Auto Bound) 2 5, Hook (Auto Bound) 3 5],
                   Lifecycle_new\<lparr>queue := [6, 7, 8]\<rparr>))"
    by (simp add: tracing_def add_def batch_add_def Lifecycle_new_def upd_defs fun_upd_idem)
  then have "Lifecycle_new\<lparr>queue := [6, 7, 8]\<rparr> = s2" using s(1,3) by auto
  then have "queue s2 = queue (Lifecycle_new\<lparr>queue := [6, 7, 8]\<rparr>)" by simp
  then have "queue s2 = [6, 7, 8]" by simp
  then show ?thesis using h s(1,2,4,5,6) by auto
qed



text \<open>
  C8. No queue catches an error. A phase queue holds \<open>xs\<close> and nothing else is linked.
  The drain runs \<open>k\<close> whole rounds, in which every callback invoked only adds items to
  the queue (the callback of \<open>x\<close> adds \<open>sp x\<close>), and comes in its next round to the
  chain \<open>as @ c # bs\<close>, where the callbacks of \<open>as\<close> again only add items and the
  callback of \<open>c\<close> throws \<open>e\<close>. Then \<^verbatim>\<open>process\<close> throws \<open>e\<close> to its caller right
  after the invocation of the callback of \<open>c\<close>: the invocations made are those of the
  \<open>k\<close> rounds, of \<open>as\<close> and of \<open>c\<close>, each once and in order; no callback of \<open>bs\<close> is
  invoked and \<open>c\<close> is not retried. In the state it leaves, the queue holds just the items
  that the callbacks of \<open>as\<close> added, so neither \<open>c\<close> nor any of \<open>bs\<close> is reachable
  from \<open>head\<close>, while \<open>c\<close> and \<open>bs\<close> are still linked to each other. The batch queue
  does the same with its sequence and is left with just the items enqueued by the callbacks
  of \<open>as\<close>. An error thrown by a drain is thrown by the \<^verbatim>\<open>end\<close> that started it: by the
  \<^verbatim>\<open>end\<close> of the bind and unbind queues when their \<^verbatim>\<open>process\<close> throws, by the \<^verbatim>\<open>end\<close> of
  the attach (detach) queue when the mount (unmount) queue's \<^verbatim>\<open>process\<close> throws, its own
  \<^verbatim>\<open>process\<close> then not being called, or when its own \<^verbatim>\<open>process\<close> throws, and by the
  \<^verbatim>\<open>end\<close> of the batch queue.
\<close>

theorem callback_error_propagates:
  "(tidy s p xs \<and> (\<forall>i<k. distinct (pending sp i xs @ pending sp (Suc i) xs)) \<and>
    pending sp k xs = as @ c # bs \<and> distinct ((as @ c # bs) @ concat (map sp as)) \<and>
    (\<forall>x\<in>set (flushed sp k xs @ as). adds_only env p fl x (sp x)) \<and> throws env p fl c e \<longrightarrow>
      (\<exists>s'. process env p fl evs s =
               Some (Inl (e, (evs @ map (\<lambda>x. Hook p x fl) (flushed sp k xs @ as @ [c]), s'))) \<and>
            holds s' p (concat (map sp as)) \<and> (\<forall>a\<in>set as. unlinked s' p a) \<and>
            path (nexts s' p) (Some c) (c # bs) None)) \<and>
   (pending sp k (queue s) = as @ c # bs \<and>
    (\<forall>x\<in>set (flushed sp k (queue s) @ as).
        flush_adds env (fl OR LifecycleFlags_fromBatch env) x (sp x)) \<and>
    flush_throws env (fl OR LifecycleFlags_fromBatch env) c e \<longrightarrow>
      (\<exists>s'. batch_process env fl evs s =
               Some (Inl (e, (evs @ map (\<lambda>x. Flush x (fl OR LifecycleFlags_fromBatch env))
                                     (flushed sp k (queue s) @ as @ [c]), s'))) \<and>
            queue s' = concat (map sp as))) \<and>
   (depth s a = 1 \<and> (a = Bound \<or> a = Unbound) \<and>
    process env (Auto a) fl evs (s\<lparr>depth := (depth s)(a := 0)\<rparr>) = Some (Inl x) \<longrightarrow>
      end_auto env a (Some fl) evs s = Some (Inl x)) \<and>
   (depth s a = 1 \<and> (a = Attached \<and> q = Mount \<or> a = Detached \<and> q = Unmount) \<and>
    process env q fl evs (s\<lparr>depth := (depth s)(a := 0)\<rparr>) = Some (Inl x) \<longrightarrow>
      end_auto env a (Some fl) evs s = Some (Inl x)) \<and>
   (depth s a = 1 \<and> (a = Attached \<and> q = Mount \<or> a = Detached \<and> q = Unmount) \<and>
    process env q fl evs (s\<lparr>depth := (depth s)(a := 0)\<rparr>) = Some (Inr (evs1, s1)) \<and>
    process env (Auto a) fl evs1 s1 = Some (Inl x) \<longrightarrow>
      end_auto env a (Some fl) evs s = Some (Inl x)) \<and>
   (batch_depth s = 1 \<and> batch_process env fl evs (s\<lparr>batch_depth := 0\<rparr>) = Some (Inl x) \<longrightarrow>
      batch_end env (Some fl) evs s = Some (Inl x))"
proof -
  have 1: "\<exists>s'. process env p fl evs s =
               Some (Inl (e, (evs @ map (\<lambda>x. Hook p x fl) (flushed sp k xs @ as @ [c]), s'))) \<and>
            holds s' p (concat (map sp as)) \<and> (\<forall>a\<in>set as. unlinked s' p a) \<and>
            path (nexts s' p) (Some c) (c # bs) None"
    if "tidy s p xs" "\<forall>i<k. distinct (pending sp i xs @ pending sp (Suc i) xs)"
      "pending sp k xs = as @ c # bs" "distinct ((as @ c # bs) @ concat (map sp as))"
      "\<forall>x\<in>set (flushed sp k xs @ as). adds_only env p fl x (sp x)" "throws env p fl c e"
    using process_rounds_throw[OF that, of evs] .
  have 2: "\<exists>s'. batch_process env fl evs s =
               Some (Inl (e, (evs @ map (\<lambda>x. Flush x (fl OR LifecycleFlags_fromBatch env))
                                     (flushed sp k (queue s) @ as @ [c]), s'))) \<and>
            queue s' = concat (map sp as)"
    if "pending sp k (queue s) = as @ c # bs"
      "\<forall>x\<in>set (flushed sp k (queue s) @ as).
          flush_adds env (fl OR LifecycleFlags_fromBatch env) x (sp x)"
      "flush_throws env (fl OR LifecycleFlags_fromBatch env) c e"
    unfolding batch_process_unfold using batch_rounds_throw[OF that, of evs] .
  have 3: "end_auto env a (Some fl) evs s = Some (Inl x)"
    if "depth s a = 1" "a = Bound \<or> a = Unbound"
      "process env (Auto a) fl evs (s\<lparr>depth := (depth s)(a := 0)\<rparr>) = Some (Inl x)"
    using that by (auto simp: end_auto_unfold)
  have 4: "end_auto env a (Some fl) evs s = Some (Inl x)"
    if "depth s a = 1" "a = Attached \<and> q = Mount \<or> a = Detached \<and> q = Unmount"
      "process env q fl evs (s\<lparr>depth := (depth s)(a := 0)\<rparr>) = Some (Inl x)"
    using that by (auto simp: end_auto_unfold)
  have 5: "end_auto env a (Some fl) evs s = Some (Inl x)"
    if "depth s a = 1" "a = Attached \<and> q = Mount \<or> a = Detached \<and> q = Unmount"
      "process env q fl evs (s\<lparr>depth := (depth s)(a := 0)\<rparr>) = Some (Inr (evs1, s1))"
      "process env (Auto a) fl evs1 s1 = Some (Inl x)"
    using that by (auto simp: end_auto_unfold)
  have 6: "batch_end env (Some fl) evs s = Some (Inl x)"
    if "batch_depth s = 1" "batch_process env fl evs (s\<lparr>batch_depth := 0\<rparr>) = Some (Inl x)"
    using that by (simp add: batch_end_unfold batch_process_unfold)
  show ?thesis using 1 2 3 4 5 6 by blast
qed

theorem callback_error_propagates_witness:
  "\<exists>s s'. adds (Auto Bound) [1, 2] (begin_auto Bound Lifecycle_new) = Inr s \<and>
     depth s Bound = 1 \<and> tidy (s\<lparr>depth := (depth s)(Bound := 0)\<rparr>) (Auto Bound) [1, 2] \<and>
     adds_only failing (Auto Bound) 5 1 [3] \<and> adds_only failing (Auto Bound) 5 2 [4, 5] \<and>
     adds_only failing (Auto Bound) 5 3 [6] \<and> throws failing (Auto Bound) 5 4 (Thrown 7) \<and>
     distinct [1, 2, 3, 4, 5 :: item] \<and> distinct [3, 4, 5, 6 :: item] \<and>
     process failing (Auto Bound) 5 [] (s\<lparr>depth := (depth s)(Bound := 0)\<rparr>) =
       Some (Inl (Thrown 7, ([Hook (Auto Bound) 1 5, Hook (Auto Bound) 2 5,
                              Hook (Auto Bound) 3 5, Hook (Auto Bound) 4 5], s'))) \<and>
     holds s' (Auto Bound) [6] \<and> unlinked s' (Auto Bound) 3 \<and>
     path (nexts s' (Auto Bound)) (Some 4) [4, 5] None \<and>
     end_auto failing Bound (Some 5) [] s =
       Some (Inl (Thrown 7, ([Hook (Auto Bound) 1 5, Hook (Auto Bound) 2 5,
                              Hook (Auto Bound) 3 5, Hook (Auto Bound) 4 5], s'))) \<and>
     flush_adds failing 13 1 [3] \<and> flush_adds failing 13 2 [4, 5] \<and>
     flush_adds failing 13 3 [6] \<and> flush_throws failing 13 4 (Thrown 7) \<and>
     (\<exists>s2. batch_process failing 5 []
            ((batch_add 2 (batch_add 1 (batch_begin Lifecycle_new)))\<lparr>batch_depth := 0\<rparr>) =
        Some (Inl (Thrown 7, ([Flush 1 13, Flush 2 13, Flush 3 13, Flush 4 13], s2))) \<and>
        queue s2 = [6] \<and>
        batch_end failing (Some 5) [] (batch_add 2 (batch_add 1 (batch_begin Lifecycle_new))) =
        Some (Inl (Thrown 7, ([Flush 1 13, Flush 2 13, Flush 3 13, Flush 4 13], s2)))) \<and>
     (\<exists>t0 t x. add Mount 4 (begin_auto Attached Lifecycle_new) = Inr t0 \<and>
        add (Auto Attached) 7 t0 = Inr t \<and> depth t Attached = 1 \<and>
        process failing Mount 5 [] (t\<lparr>depth := (depth t)(Attached := 0)\<rparr>) = Some (Inl x) \<and>
        end_auto failing Attached (Some 5) [] t = Some (Inl x) \<and>
        fst x = Thrown 7 \<and> fst (snd x) = [Hook Mount 4 5] \<and>
        head (snd (snd x)) (Auto Attached) = Some 7)"
proof -
  let ?sp = "\<lambda>c::item. if c = 1 then [3::item] else if c = 2 then [4, 5]
                       else if c = 3 then [6] else []"
  let ?p = "Auto Bound"
  have "tidy (begin_auto Bound Lifecycle_new) ?p []"
    using tidy_new[of ?p] by (simp add: begin_auto_def)
  from adds_tidy[OF this, of "[1, 2]"]
  obtain s where s: "adds ?p [1, 2] (begin_auto Bound Lifecycle_new) = Inr s" "tidy s ?p [1, 2]"
    by auto
  let ?s0 = "s\<lparr>depth := (depth s)(Bound := 0)\<rparr>"
  have d: "depth s Bound = 1"
    using s(1) by (auto simp: add_def Let_def upd_defs begin_auto_def Lifecycle_new_def)
  have t0: "tidy ?s0 ?p [1, 2]" using s(2) by simp
  have a: "adds_only failing ?p 5 1 [3]" "adds_only failing ?p 5 2 [4, 5]"
    "adds_only failing ?p 5 3 [6]"
    by (simp_all add: adds_only_def failing_def same_queue_def split: sum.split)
  have t: "throws failing ?p 5 4 (Thrown 7)"
    by (simp add: throws_def failing_def same_queue_def)
  have h2: "\<forall>i<1. distinct (pending ?sp i [1, 2] @ pending ?sp (Suc i) [1, 2])" by simp
  have h3: "pending ?sp 1 [1, 2] = [3] @ 4 # [5]" by simp
  have h4: "distinct (([3] @ 4 # [5]) @ concat (map ?sp [3]))" by simp
  have h5: "\<forall>x\<in>set (flushed ?sp 1 [1, 2] @ [3]). adds_only failing ?p 5 x (?sp x)"
    using a by simp
  let ?x = "(Thrown 7, ([Hook ?p 1 5, Hook ?p 2 5, Hook ?p 3 5, Hook ?p 4 5], s))"
  note inst1 = callback_error_propagates[of ?s0 ?p "[1, 2]" 1 ?sp "[3]" 4 "[5]" failing 5
      "Thrown 7" "[]" Bound _ Mount "[]" ?s0]
  from inst1[of ?x, THEN conjunct1] t0 h2 h3 h4 h5 t
  obtain s' where s': "process failing ?p 5 [] ?s0 =
        Some (Inl (Thrown 7, ([] @ map (\<lambda>x. Hook ?p x 5) (flushed ?sp 1 [1, 2] @ [3] @ [4]), s')))"
      "holds s' ?p (concat (map ?sp [3]))" "\<forall>a\<in>set [3]. unlinked s' ?p a"
      "path (nexts s' ?p) (Some 4) (4 # [5]) None"
    by blast
  let ?y = "(Thrown 7, ([Hook ?p 1 5, Hook ?p 2 5, Hook ?p 3 5, Hook ?p 4 5], s'))"
  have p': "process failing ?p 5 [] ?s0 = Some (Inl ?y)" using s'(1) by simp
  note inst2 = callback_error_propagates[of s ?p "[1, 2]" 1 ?sp "[3]" 4 "[5]" failing 5
      "Thrown 7" "[]" Bound ?y Mount "[]" s]
  have e: "end_auto failing Bound (Some 5) [] s = Some (Inl ?y)"
    using inst2[THEN conjunct2, THEN conjunct2, THEN conjunct1] d p' by blast
  let ?b = "batch_add 2 (batch_add 1 (batch_begin Lifecycle_new))"
  let ?bz = "?b\<lparr>batch_depth := 0\<rparr>"
  have o: "(5 :: flags) OR LifecycleFlags_fromBatch failing = 13" by (simp add: failing_def)
  have q: "queue ?bz = [1, 2]" "batch_depth ?b = 1"
    by (simp_all add: batch_add_def batch_begin_def Lifecycle_new_def)
  have fa: "flush_adds failing 13 1 [3]" "flush_adds failing 13 2 [4, 5]"
    "flush_adds failing 13 3 [6]"
    by (simp_all add: flush_adds_def failing_def batch_add_def)
  have ft: "flush_throws failing 13 4 (Thrown 7)"
    by (simp add: flush_throws_def failing_def)
  have b3: "pending ?sp 1 (queue ?bz) = [3] @ 4 # [5]" unfolding q(1) by simp
  have b5: "\<forall>x\<in>set (flushed ?sp 1 (queue ?bz) @ [3]).
      flush_adds failing (5 OR LifecycleFlags_fromBatch failing) x (?sp x)"
    unfolding o q(1) using fa by simp
  have bt: "flush_throws failing (5 OR LifecycleFlags_fromBatch failing) 4 (Thrown 7)"
    unfolding o using ft .
  note inst3 = callback_error_propagates[of ?bz ?p "[1, 2]" 1 ?sp "[3]" 4 "[5]" failing 5
      "Thrown 7" "[]" Bound ?x Mount "[]" s]
  from inst3[THEN conjunct2, THEN conjunct1] b3 b5 bt
  obtain s2 where s2: "batch_process failing 5 [] ?bz =
        Some (Inl (Thrown 7, ([] @ map (\<lambda>x. Flush x (5 OR LifecycleFlags_fromBatch failing))
                                     (flushed ?sp 1 (queue ?bz) @ [3] @ [4]), s2)))"
      "queue s2 = concat (map ?sp [3])"
    by blast
  let ?z = "(Thrown 7, ([Flush 1 13, Flush 2 13, Flush 3 13, Flush 4 13], s2))"
  have bp: "batch_process failing 5 [] ?bz = Some (Inl ?z)"
    using s2(1) unfolding o q(1) by simp
  note inst4 = callback_error_propagates[of ?b ?p "[1, 2]" 1 ?sp "[3]" 4 "[5]" failing 5
      "Thrown 7" "[]" Bound ?z Mount "[]" s]
  have be: "batch_end failing (Some 5) [] ?b = Some (Inl ?z)"
    using inst4[THEN conjunct2, THEN conjunct2, THEN conjunct2, THEN conjunct2, THEN conjunct2]
      q(2) bp by blast
  have r1: "holds s' ?p [6]" "unlinked s' ?p 3" "path (nexts s' ?p) (Some 4) [4, 5] None"
    using s'(2,3,4) by simp_all
  have r2: "queue s2 = [6]" using s2(2) by simp
  have "\<exists>t0 t x. add Mount 4 (begin_auto Attached Lifecycle_new) = Inr t0 \<and>
        add (Auto Attached) 7 t0 = Inr t \<and> depth t Attached = 1 \<and>
        process failing Mount 5 [] (t\<lparr>depth := (depth t)(Attached := 0)\<rparr>) = Some (Inl x) \<and>
        fst x = Thrown 7 \<and> fst (snd x) = [Hook Mount 4 5] \<and>
        head (snd (snd x)) (Auto Attached) = Some 7"
    by (simp add: process_unfold walk_unfold failing_def add_def begin_auto_def
        Lifecycle_new_def upd_defs)
  then obtain t0 t x where m:
      "add Mount 4 (begin_auto Attached Lifecycle_new) = Inr t0"
      "add (Auto Attached) 7 t0 = Inr t" "depth t Attached = 1"
      "process failing Mount 5 [] (t\<lparr>depth := (depth t)(Attached := 0)\<rparr>) = Some (Inl x)"
      "fst x = Thrown 7" "fst (snd x) = [Hook Mount 4 5]"
      "head (snd (snd x)) (Auto Attached) = Some 7"
    by blast
  note inst5 = callback_error_propagates[of t ?p "[1, 2]" 1 ?sp "[3]" 4 "[5]" failing 5
      "Thrown 7" "[]" Attached x Mount "[]" s]
  have me: "end_auto failing Attached (Some 5) [] t = Some (Inl x)"
    using inst5[THEN conjunct2, THEN conjunct2, THEN conjunct2, THEN conjunct1] m(3,4) by blast
  have r3: "\<exists>t0 t x. add Mount 4 (begin_auto Attached Lifecycle_new) = Inr t0 \<and>
        add (Auto Attached) 7 t0 = Inr t \<and> depth t Attached = 1 \<and>
        process failing Mount 5 [] (t\<lparr>depth := (depth t)(Attached := 0)\<rparr>) = Some (Inl x) \<and>
        end_auto failing Attached (Some 5) [] t = Some (Inl x) \<and>
        fst x = Thrown 7 \<and> fst (snd x) = [Hook Mount 4 5] \<and>
        head (snd (snd x)) (Auto Attached) = Some 7"
    using m me by blast
  have r0: "\<exists>s2. batch_process failing 5 []
            ((batch_add 2 (batch_add 1 (batch_begin Lifecycle_new)))\<lparr>batch_depth := 0\<rparr>) =
        Some (Inl (Thrown 7, ([Flush 1 13, Flush 2 13, Flush 3 13, Flush 4 13], s2))) \<and>
        queue s2 = [6] \<and>
        batch_end failing (Some 5) [] (batch_add 2 (batch_add 1 (batch_begin Lifecycle_new))) =
        Some (Inl (Thrown 7, ([Flush 1 13, Flush 2 13, Flush 3 13, Flush 4 13], s2)))"
    using bp r2 be by blast
  show ?thesis
    using s(1) d t0 a t p' r1 e fa ft r0 r3 by auto
qed

text \<open>
  C9. For every auto queue, the batch queue included: \<^verbatim>\<open>begin\<close> increments the depth;
  \<^verbatim>\<open>end\<close> decrements it and, when the depth it finds is not 1, does nothing else: no
  callback is invoked and nothing but the depth changes. When the depth it finds is 1, so that
  the decrement reaches exactly 0, \<^verbatim>\<open>end\<close> runs the drain, with the depth at 0 and with
  the flags it was given (\<^verbatim>\<open>LifecycleFlags.none\<close> when it was given none): in the bind and
  unbind queues \<^verbatim>\<open>end\<close> is then the queue's own \<^verbatim>\<open>process\<close>; in the attach (detach)
  queue it is the mount (unmount) queue's \<^verbatim>\<open>process\<close> and, when that returns, the queue's
  own \<^verbatim>\<open>process\<close> in the state and after the invocations the first left, and it throws or
  does not return when the first does; in the batch queue it is the batch queue's
  \<^verbatim>\<open>process\<close>. So from depth 0, after any number of nested \<^verbatim>\<open>begin\<close> calls, every
  \<^verbatim>\<open>end\<close> but the outermost only returns to the state before the \<^verbatim>\<open>begin\<close> it matches,
  and the outermost \<^verbatim>\<open>end\<close> finds the depth at 1 and is the drain, run in the state before
  the first \<^verbatim>\<open>begin\<close>: in \<^verbatim>\<open>begin; begin; end; end\<close> the inner \<^verbatim>\<open>end\<close> drains nothing.
\<close>

theorem end_drains_only_at_depth_zero:
  assumes "fl = (case fo of None \<Rightarrow> LifecycleFlags_none env | Some f \<Rightarrow> f)"
  shows
  "depth (begin_auto a s) a = depth s a + 1 \<and>
   (depth s a \<noteq> 1 \<longrightarrow>
      end_auto env a fo evs s = Some (Inr (evs, s\<lparr>depth := (depth s)(a := depth s a - 1)\<rparr>))) \<and>
   (depth s a = 1 \<and> (a = Bound \<or> a = Unbound) \<longrightarrow>
      end_auto env a fo evs s = process env (Auto a) fl evs (s\<lparr>depth := (depth s)(a := 0)\<rparr>)) \<and>
   (depth s a = 1 \<and> (a = Attached \<and> q = Mount \<or> a = Detached \<and> q = Unmount) \<longrightarrow>
      (process env q fl evs (s\<lparr>depth := (depth s)(a := 0)\<rparr>) = Some (Inr (evs1, s1)) \<longrightarrow>
         end_auto env a fo evs s = process env (Auto a) fl evs1 s1) \<and>
      (process env q fl evs (s\<lparr>depth := (depth s)(a := 0)\<rparr>) = Some (Inl x) \<longrightarrow>
         end_auto env a fo evs s = Some (Inl x)) \<and>
      (process env q fl evs (s\<lparr>depth := (depth s)(a := 0)\<rparr>) = None \<longrightarrow>
         end_auto env a fo evs s = None)) \<and>
   (depth s a = 0 \<longrightarrow>
      (\<forall>n. end_auto env a fo evs ((begin_auto a ^^ Suc (Suc n)) s) =
             Some (Inr (evs, (begin_auto a ^^ Suc n) s))) \<and>
      depth (begin_auto a s) a = 1 \<and>
      (begin_auto a s)\<lparr>depth := (depth (begin_auto a s))(a := 0)\<rparr> = s) \<and>
   batch_depth (batch_begin s) = batch_depth s + 1 \<and>
   (batch_depth s \<noteq> 1 \<longrightarrow>
      batch_end env fo evs s = Some (Inr (evs, s\<lparr>batch_depth := batch_depth s - 1\<rparr>))) \<and>
   (batch_depth s = 1 \<longrightarrow>
      batch_end env fo evs s = batch_process env fl evs (s\<lparr>batch_depth := 0\<rparr>)) \<and>
   (batch_depth s = 0 \<longrightarrow>
      (\<forall>n. batch_end env fo evs ((batch_begin ^^ Suc (Suc n)) s) =
             Some (Inr (evs, (batch_begin ^^ Suc n) s))) \<and>
      batch_depth (batch_begin s) = 1 \<and> (batch_begin s)\<lparr>batch_depth := 0\<rparr> = s)"
proof -
  let ?s0 = "s\<lparr>depth := (depth s)(a := 0)\<rparr>"
  have c1: "depth (begin_auto a s) a = depth s a + 1" by (simp add: begin_auto_def)
  have c2: "depth s a \<noteq> 1 \<longrightarrow>
      end_auto env a fo evs s = Some (Inr (evs, s\<lparr>depth := (depth s)(a := depth s a - 1)\<rparr>))"
    by (simp add: end_auto_unfold)
  have c3: "depth s a = 1 \<and> (a = Bound \<or> a = Unbound) \<longrightarrow>
      end_auto env a fo evs s = process env (Auto a) fl evs ?s0"
    using assms by (auto simp: end_auto_unfold)
  have e: "end_auto env a fo evs s = and_then (process env q fl evs ?s0) (process env (Auto a) fl)"
    if "depth s a = 1" "a = Attached \<and> q = Mount \<or> a = Detached \<and> q = Unmount"
    using that assms by (auto simp: end_auto_unfold)
  have c4: "depth s a = 1 \<and> (a = Attached \<and> q = Mount \<or> a = Detached \<and> q = Unmount) \<longrightarrow>
      (process env q fl evs ?s0 = Some (Inr (evs1, s1)) \<longrightarrow>
         end_auto env a fo evs s = process env (Auto a) fl evs1 s1) \<and>
      (process env q fl evs ?s0 = Some (Inl x) \<longrightarrow> end_auto env a fo evs s = Some (Inl x)) \<and>
      (process env q fl evs ?s0 = None \<longrightarrow> end_auto env a fo evs s = None)"
    using e by simp
  have c5: "end_auto env a fo evs ((begin_auto a ^^ Suc (Suc n)) s) =
      Some (Inr (evs, (begin_auto a ^^ Suc n) s))" if "depth s a = 0" for n
  proof -
    have "depth ((begin_auto a ^^ Suc n) s) a \<noteq> 0"
      unfolding depth_begins using that by simp
    from end_after_begin[OF this, of env fo evs] show ?thesis by simp
  qed
  have c6: "depth (begin_auto a s) a = 1 \<and>
      (begin_auto a s)\<lparr>depth := (depth (begin_auto a s))(a := 0)\<rparr> = s" if "depth s a = 0"
    using that by (simp add: begin_auto_def fun_upd_idem)
  have c7: "batch_depth (batch_begin s) = batch_depth s + 1" by (simp add: batch_begin_def)
  have c8: "batch_depth s \<noteq> 1 \<longrightarrow>
      batch_end env fo evs s = Some (Inr (evs, s\<lparr>batch_depth := batch_depth s - 1\<rparr>))"
    by (simp add: batch_end_unfold)
  have c9: "batch_depth s = 1 \<longrightarrow>
      batch_end env fo evs s = batch_process env fl evs (s\<lparr>batch_depth := 0\<rparr>)"
    using assms by (simp add: batch_end_unfold batch_process_unfold)
  have c10: "batch_end env fo evs ((batch_begin ^^ Suc (Suc n)) s) =
      Some (Inr (evs, (batch_begin ^^ Suc n) s))" if "batch_depth s = 0" for n
  proof -
    have "batch_depth ((batch_begin ^^ Suc n) s) \<noteq> 0"
      unfolding batch_depth_begins using that by simp
    from batch_end_after_begin[OF this, of env fo evs] show ?thesis by simp
  qed
  have c11: "batch_depth (batch_begin s) = 1 \<and> (batch_begin s)\<lparr>batch_depth := 0\<rparr> = s"
    if "batch_depth s = 0"
    using that by (simp add: batch_begin_def)
  show ?thesis
    using c1 c2 c3 c4 c5 c6 c7 c8 c9 c10 c11 by blast
qed

theorem end_drains_only_at_depth_zero_witness:
  "\<exists>s0 s s1. add (Auto Attached) 3 Lifecycle_new = Inr s0 \<and> adds Mount [1, 2] s0 = Inr s \<and>
     depth s Attached = 0 \<and> depth (begin_auto Attached (begin_auto Attached s)) Attached = 2 \<and>
     end_auto tracing Attached (Some 5) [] (begin_auto Attached (begin_auto Attached s)) =
       Some (Inr ([], begin_auto Attached s)) \<and>
     depth (begin_auto Attached s) Attached = 1 \<and>
     process tracing Mount 5 [] s = Some (Inr ([Hook Mount 1 5, Hook Mount 2 5], s1)) \<and>
     end_auto tracing Attached (Some 5) [] (begin_auto Attached s) =
       process tracing (Auto Attached) 5 [Hook Mount 1 5, Hook Mount 2 5] s1 \<and>
     end_auto tracing Attached (Some 5) [] (begin_auto Attached s) =
       Some (Inr ([Hook Mount 1 5, Hook Mount 2 5, Hook (Auto Attached) 3 5],
                  Lifecycle_new\<lparr>queue := [6, 7, 8]\<rparr>)) \<and>
     batch_depth (batch_begin (batch_begin (batch_add 1 Lifecycle_new))) = 2 \<and>
     batch_end tracing (Some 5) [] (batch_begin (batch_begin (batch_add 1 Lifecycle_new))) =
       Some (Inr ([], batch_begin (batch_add 1 Lifecycle_new))) \<and>
     batch_end tracing (Some 5) [] (batch_begin (batch_add 1 Lifecycle_new)) =
       Some (Inr ([Flush 1 13], Lifecycle_new))"
proof -
  have "\<exists>s0 s s1. add (Auto Attached) 3 Lifecycle_new = Inr s0 \<and> adds Mount [1, 2] s0 = Inr s \<and>
     depth s Attached = 0 \<and>
     process tracing Mount 5 [] s = Some (Inr ([Hook Mount 1 5, Hook Mount 2 5], s1)) \<and>
     process tracing (Auto Attached) 5 [Hook Mount 1 5, Hook Mount 2 5] s1 =
       Some (Inr ([Hook Mount 1 5, Hook Mount 2 5, Hook (Auto Attached) 3 5],
                  Lifecycle_new\<lparr>queue := [6, 7, 8]\<rparr>))"
    by (simp add: process_unfold walk_unfold tracing_def add_def batch_add_def
        Lifecycle_new_def upd_defs fun_upd_idem)
  then obtain s0 s s1 where s:
     "add (Auto Attached) 3 Lifecycle_new = Inr s0" "adds Mount [1, 2] s0 = Inr s"
     "depth s Attached = 0"
     "process tracing Mount 5 [] s = Some (Inr ([Hook Mount 1 5, Hook Mount 2 5], s1))"
     "process tracing (Auto Attached) 5 [Hook Mount 1 5, Hook Mount 2 5] s1 =
       Some (Inr ([Hook Mount 1 5, Hook Mount 2 5, Hook (Auto Attached) 3 5],
                  Lifecycle_new\<lparr>queue := [6, 7, 8]\<rparr>))"
    by blast
  have f: "(5::flags) = (case Some 5 of None \<Rightarrow> LifecycleFlags_none tracing | Some f \<Rightarrow> f)"
    by simp
  let ?x = "(TypeError, ([]::event list, s))"
  note at_s = end_drains_only_at_depth_zero[OF f, of Attached s "[]" Mount
      "[Hook Mount 1 5, Hook Mount 2 5]" s1 ?x]
  have n: "end_auto tracing Attached (Some 5) [] ((begin_auto Attached ^^ Suc (Suc 0)) s) =
      Some (Inr ([], (begin_auto Attached ^^ Suc 0) s))"
    "depth (begin_auto Attached s) Attached = 1"
    "(begin_auto Attached s)\<lparr>depth := (depth (begin_auto Attached s))(Attached := 0)\<rparr> = s"
    using at_s s(3) by blast+
  note at_b = end_drains_only_at_depth_zero[OF f, of Attached "begin_auto Attached s" "[]" Mount
      "[Hook Mount 1 5, Hook Mount 2 5]" s1 ?x]
  have "end_auto tracing Attached (Some 5) [] (begin_auto Attached s) =
      process tracing (Auto Attached) 5 [Hook Mount 1 5, Hook Mount 2 5] s1"
    using at_b n(2) s(4) unfolding n(3) by blast
  moreover have "depth (begin_auto Attached (begin_auto Attached s)) Attached = 2"
    using n(2) by (simp add: begin_auto_def)
  moreover note bi = end_drains_only_at_depth_zero[OF f, of Attached
      "batch_begin (batch_begin (batch_add 1 Lifecycle_new))" "[]" Mount "[]" s1 ?x]
  have b2: "batch_depth (batch_begin (batch_begin (batch_add 1 Lifecycle_new))) = 2"
    by (simp add: batch_begin_def batch_add_def Lifecycle_new_def)
  have "batch_end tracing (Some 5) [] (batch_begin (batch_begin (batch_add 1 Lifecycle_new))) =
      Some (Inr ([], (batch_begin (batch_begin (batch_add 1 Lifecycle_new)))
                       \<lparr>batch_depth := 2 - 1\<rparr>))"
    using bi b2 by simp
  then have b3: "batch_end tracing (Some 5) [] (batch_begin (batch_begin (batch_add 1 Lifecycle_new))) =
      Some (Inr ([], batch_begin (batch_add 1 Lifecycle_new)))"
    by (simp add: batch_begin_def batch_add_def Lifecycle_new_def)
  note bo = end_drains_only_at_depth_zero[OF f, of Attached
      "batch_begin (batch_add 1 Lifecycle_new)" "[]" Mount "[]" s1 ?x]
  have b1: "batch_depth (batch_begin (batch_add 1 Lifecycle_new)) = 1"
    by (simp add: batch_begin_def batch_add_def Lifecycle_new_def)
  have "batch_end tracing (Some 5) [] (batch_begin (batch_add 1 Lifecycle_new)) =
      batch_process tracing 5 [] ((batch_begin (batch_add 1 Lifecycle_new))\<lparr>batch_depth := 0\<rparr>)"
    using bo b1 by blast
  then have b4: "batch_end tracing (Some 5) [] (batch_begin (batch_add 1 Lifecycle_new)) =
      Some (Inr ([Flush 1 13], Lifecycle_new))"
    by (simp add: batch_process_unfold batch_rounds_unfold tracing_def batch_begin_def
        batch_add_def Lifecycle_new_def)
  ultimately show ?thesis using s n b2 b3 b4 by auto
qed

text \<open>
  C10. A phase queue holds the items \<open>xs\<close>, and \<^verbatim>\<open>remove(x)\<close> is called before
  \<^verbatim>\<open>process\<close>, for an item \<open>x\<close> of the queue or an item that is not linked at all. Then
  \<^verbatim>\<open>process\<close> returns and never invokes the callback of \<open>x\<close>. The callbacks it does
  invoke are those of \<open>xs\<close> without \<open>x\<close>, in order, when \<open>x\<close> was not the first item;
  when \<open>x\<close> was the first item it invokes none. After \<^verbatim>\<open>add\<close> of A, B, C and
  \<^verbatim>\<open>remove(B)\<close> it invokes the callback of A and then that of C.
\<close>

theorem remove_then_process:
  assumes "holds s p xs" and "x \<in> set xs \<or> unlinked s p x" and "\<forall>c\<in>set xs. quiet env p fl c"
  shows "\<exists>ys s'. process env p fl evs (remove p x s) =
             Some (Inr (evs @ map (\<lambda>c. Hook p c fl) ys, s')) \<and>
           ys = (if x \<in> set xs \<and> x = hd xs then [] else remove1 x xs) \<and> x \<notin> set ys"
proof (cases "x \<in> set xs")
  case False
  then have r: "remove p x s = s" using assms(1,2) remove_absent by blast
  have p: "path (nexts s p) (head s p) xs None" and d: "distinct xs"
    using assms(1) by (simp_all add: holds_def)
  show ?thesis
  proof (cases "xs = []")
    case True
    then have "head s p = None" using p by simp
    then show ?thesis using True r process_empty[of s p env fl evs] by simp
  next
    case ne: False
    from process_drain[OF ne d p assms(3), of evs] show ?thesis
      using False r by (auto simp: remove1_idem)
  qed
next
  case True
  then obtain as bs where xs: "xs = as @ x # bs" "x \<notin> set as"
    by (meson split_list_first)
  have h: "holds s p (as @ x # bs)" using assms(1) xs by simp
  have d: "distinct (as @ x # bs)" and p: "path (nexts s p) (head s p) (as @ x # bs) None"
    using h by (simp_all add: holds_def)
  show ?thesis
  proof (cases "as = []")
    case Nil: True
    then have "head (remove p x s) p = None" using h remove_first(1)[of s p x bs] by simp
    then show ?thesis using Nil xs True process_empty[of "remove p x s" p env fl evs] by simp
  next
    case ne: False
    have r1: "remove1 x xs = as @ bs" using xs by (simp add: remove1_append)
    have nh: "x \<noteq> hd xs" using xs ne by (cases as) auto
    have hd': "head (remove p x s) p = head s p"
      using remove_later(1)[OF h ne] holds_split(3)[OF h] ne by simp
    have "path (nexts (remove p x s) p) (head (remove p x s) p) (as @ bs) None"
      using path_unlink[OF p d ne] remove_later(3)[OF h ne] hd' by simp
    moreover have "distinct (as @ bs)" "as @ bs \<noteq> []" "\<forall>c\<in>set (as @ bs). quiet env p fl c"
      using d ne assms(3) xs by auto
    ultimately obtain s' where "process env p fl evs (remove p x s) =
        Some (Inr (evs @ map (\<lambda>c. Hook p c fl) (as @ bs), s'))"
      using process_drain[of "as @ bs" "remove p x s" p env fl evs] by blast
    then show ?thesis using r1 nh d by auto
  qed
qed

theorem remove_then_process_witness:
  "\<exists>s. adds (Auto Bound) [1, 2, 3] Lifecycle_new = Inr s \<and> holds s (Auto Bound) [1, 2, 3] \<and>
     quiet silent (Auto Bound) 5 1 \<and> quiet silent (Auto Bound) 5 2 \<and>
     quiet silent (Auto Bound) 5 3 \<and>
     (\<exists>s'. process silent (Auto Bound) 5 [] (remove (Auto Bound) 2 s) =
        Some (Inr ([Hook (Auto Bound) 1 5, Hook (Auto Bound) 3 5], s')))"
proof -
  have "holds Lifecycle_new (Auto Bound) []" by (simp add: holds_Nil Lifecycle_new_def)
  from adds_holds[OF this, of "[1, 2, 3]"]
  obtain s where s: "adds (Auto Bound) [1, 2, 3] Lifecycle_new = Inr s"
      "holds s (Auto Bound) [1, 2, 3]"
    by (auto simp: unlinked_def Lifecycle_new_def)
  have q: "\<forall>c\<in>set [1, 2, 3]. quiet silent (Auto Bound) 5 c"
    by (simp add: quiet_def silent_def same_queue_def)
  have "2 \<in> set [1, 2, 3 :: item] \<or> unlinked s (Auto Bound) 2" by simp
  from remove_then_process[OF s(2) this q, of "[]"] s q show ?thesis by auto
qed

end
